theory Spec2Isabelle
  imports Main
begin

section \<open>Queue records of the upload modal\<close>

text \<open>
  \<^verbatim>\<open>UploadModal.tsx\<close> keeps one record per submitted item. The \<^verbatim>\<open>file\<close> field is
  either a browser \<^verbatim>\<open>File\<close> (a name and its bytes) or, for rows rebuilt from the
  server's report list, a bare object \<^verbatim>\<open>{ name }\<close>. Strings are lists of characters.
\<close>

datatype status = Idle | Uploading | Queued | Processing | Done | Error

datatype fileobj = File string string | NameOnly string

fun file_name :: "fileobj \<Rightarrow> string" where
  "file_name (File n b) = n"
| "file_name (NameOnly n) = n"

fun instanceof_File :: "fileobj \<Rightarrow> bool" where
  "instanceof_File (File n b) = True"
| "instanceof_File (NameOnly n) = False"

record QueueItem =
  item_file :: fileobj
  status :: status
  jobId :: "string option"
  resultUrl :: "string option"
  error :: "string option"

section \<open>getUniqueFileName\<close>

text \<open>\<^verbatim>\<open>String.prototype.lastIndexOf\<close> for a single character; \<open>None\<close> stands for -1.\<close>

fun lastIndexOf :: "string \<Rightarrow> char \<Rightarrow> nat option" where
  "lastIndexOf [] c = None"
| "lastIndexOf (x # xs) c =
     (case lastIndexOf xs c of
        Some i \<Rightarrow> Some (Suc i)
      | None \<Rightarrow> (if x = c then Some 0 else None))"

text \<open>\<^verbatim>\<open>String(counter)\<close>: the decimal numeral of a non-negative integer.\<close>

definition digit_char :: "nat \<Rightarrow> char" where
  "digit_char d = char_of (48 + d)"

fun String_of :: "nat \<Rightarrow> string" where
  "String_of n =
     (if n < 10 then [digit_char n] else String_of (n div 10) @ [digit_char (n mod 10)])"

declare String_of.simps [simp del]

text \<open>\<^verbatim>\<open>s.padStart(2, '0')\<close>: zeros are put in front until the length is at least 2.\<close>

definition padStart2 :: "string \<Rightarrow> string" where
  "padStart2 s = replicate (2 - length s) (CHR ''0'') @ s"

text \<open>The stem and the extension that \<^verbatim>\<open>getUniqueFileName\<close> cuts at the last dot.\<close>

definition stem_of :: "string \<Rightarrow> string" where
  "stem_of fileName =
     (case lastIndexOf fileName (CHR ''.'') of Some i \<Rightarrow> take i fileName | None \<Rightarrow> fileName)"

definition ext_of :: "string \<Rightarrow> string" where
  "ext_of fileName =
     (case lastIndexOf fileName (CHR ''.'') of Some i \<Rightarrow> drop i fileName | None \<Rightarrow> [])"

text \<open>
  The inner \<^verbatim>\<open>isDuplicate\<close>: the queue is searched for the full name, the set of
  names known from the server for the base name.
\<close>

definition isDuplicate :: "QueueItem list \<Rightarrow> string list \<Rightarrow> string \<Rightarrow> string \<Rightarrow> bool" where
  "isDuplicate currentQueue existingNames nameToCheck baseNameToCheck =
     (let inQueue = list_ex (\<lambda>item. file_name (item_file item) = nameToCheck) currentQueue;
          inHistory = (baseNameToCheck \<in> set existingNames)
      in inQueue \<or> inHistory)"

definition suffixed_base :: "string \<Rightarrow> nat \<Rightarrow> string" where
  "suffixed_base name counter = name @ ''_'' @ padStart2 (String_of counter)"

text \<open>
  The \<^verbatim>\<open>while (isDuplicate(newName, newBaseName))\<close> loop. Its variables are
  \<^verbatim>\<open>newName\<close>, \<^verbatim>\<open>newBaseName\<close> and \<^verbatim>\<open>counter\<close>; the queue, the known names, the
  stem and the extension are fixed.
\<close>

function while_isDuplicate ::
  "QueueItem list \<Rightarrow> string list \<Rightarrow> string \<Rightarrow> string \<Rightarrow> string \<Rightarrow> string \<Rightarrow> nat \<Rightarrow> string" where
  "while_isDuplicate currentQueue existingNames name ext newName newBaseName counter =
     (if isDuplicate currentQueue existingNames newName newBaseName then
        (let suffix = padStart2 (String_of counter);
             newBaseName' = name @ ''_'' @ suffix;
             newName' = newBaseName' @ ext
         in while_isDuplicate currentQueue existingNames name ext newName' newBaseName' (counter + 1))
      else newName)"
  by pat_completeness auto

definition digits_value :: "string \<Rightarrow> nat" where
  "digits_value s = foldl (\<lambda>a c. 10 * a + (of_char c - 48)) 0 s"

lemma digits_value_snoc: "digits_value (s @ [c]) = 10 * digits_value s + (of_char c - 48)"
  by (simp add: digits_value_def)

lemma digit_char_value: "d < 10 \<Longrightarrow> (of_char (digit_char d) :: nat) - 48 = d"
  by (simp add: digit_char_def)

lemma digits_value_String_of: "digits_value (String_of n) = n"
proof (induction n rule: String_of.induct)
  case (1 n)
  show ?case
  proof (cases "n < 10")
    case True
    then show ?thesis
      by (subst String_of.simps) (simp add: digits_value_def digit_char_value)
  next
    case False
    then have "digits_value (String_of (n div 10)) = n div 10" using 1 by simp
    with False show ?thesis
      by (subst String_of.simps) (simp add: digits_value_snoc digit_char_value)
  qed
qed

lemma digits_value_zeros: "digits_value (replicate k (CHR ''0'') @ s) = digits_value s"
  by (induction k) (simp_all add: digits_value_def)

lemma digits_value_padStart2: "digits_value (padStart2 (String_of n)) = n"
  by (simp add: padStart2_def digits_value_zeros digits_value_String_of)

lemma inj_suffixed_base: "inj (suffixed_base name)"
proof (rule injI)
  fix a b assume "suffixed_base name a = suffixed_base name b"
  then have "padStart2 (String_of a) = padStart2 (String_of b)"
    by (simp add: suffixed_base_def)
  then have "digits_value (padStart2 (String_of a)) = digits_value (padStart2 (String_of b))"
    by simp
  then show "a = b" by (simp add: digits_value_padStart2)
qed

lemma inj_suffixed_name: "inj (\<lambda>c. suffixed_base name c @ ext)"
  using inj_suffixed_base [of name] by (auto simp: inj_def)

lemma isDuplicate_iff:
  "isDuplicate Q H n b \<longleftrightarrow> n \<in> set (map (\<lambda>item. file_name (item_file item)) Q) \<or> b \<in> set H"
  by (auto simp: isDuplicate_def list_ex_iff)

definition dup_counters :: "QueueItem list \<Rightarrow> string list \<Rightarrow> string \<Rightarrow> string \<Rightarrow> nat set" where
  "dup_counters Q H name ext =
     {c. isDuplicate Q H (suffixed_base name c @ ext) (suffixed_base name c)}"

lemma finite_dup_counters: "finite (dup_counters Q H name ext)"
proof -
  have "dup_counters Q H name ext =
      (\<lambda>c. suffixed_base name c @ ext) -` set (map (\<lambda>item. file_name (item_file item)) Q)
      \<union> suffixed_base name -` set H"
    by (auto simp: dup_counters_def isDuplicate_iff)
  moreover have "finite ((\<lambda>c. suffixed_base name c @ ext) -` set (map (\<lambda>item. file_name (item_file item)) Q))"
    by (rule finite_vimageI [OF _ inj_suffixed_name]) simp
  moreover have "finite (suffixed_base name -` set H)"
    by (rule finite_vimageI [OF _ inj_suffixed_base]) simp
  ultimately show ?thesis by simp
qed

definition counter_bound :: "QueueItem list \<Rightarrow> string list \<Rightarrow> string \<Rightarrow> string \<Rightarrow> nat" where
  "counter_bound Q H name ext = Suc (Max (insert 0 (dup_counters Q H name ext)))"

lemma dup_counter_below_bound:
  "isDuplicate Q H (suffixed_base name c @ ext) (suffixed_base name c) \<Longrightarrow> c < counter_bound Q H name ext"
proof -
  assume "isDuplicate Q H (suffixed_base name c @ ext) (suffixed_base name c)"
  then have "c \<in> insert 0 (dup_counters Q H name ext)" by (simp add: dup_counters_def)
  then have "c \<le> Max (insert 0 (dup_counters Q H name ext))"
    using finite_dup_counters [of Q H name ext] by (intro Max_ge) auto
  then show ?thesis by (simp add: counter_bound_def)
qed

termination while_isDuplicate
proof (relation "measure (\<lambda>(Q, H, name, ext, newName, newBaseName, counter).
          2 * (counter_bound Q H name ext - counter)
          + (if isDuplicate Q H newName newBaseName then 1 else 0))", goal_cases)
  case 1
  show ?case by simp
next
  case (2 Q H name ext newName newBaseName counter suffix nb nn)
  then have nb: "nb = suffixed_base name counter" and nn: "nn = suffixed_base name counter @ ext"
    by (simp_all add: suffixed_base_def)
  show ?case
  proof (cases "isDuplicate Q H nn nb")
    case True
    then have "counter < counter_bound Q H name ext"
      unfolding nb nn by (rule dup_counter_below_bound)
    with 2(1) True show ?thesis by simp
  next
    case False
    with 2(1) show ?thesis by simp
  qed
qed

declare while_isDuplicate.simps [simp del]

text \<open>
  \<^verbatim>\<open>getUniqueFileName(fileName, currentQueue)\<close>; \<^verbatim>\<open>existingNames\<close> is the component's
  set of names fetched from the server.
\<close>

definition getUniqueFileName :: "string list \<Rightarrow> string \<Rightarrow> QueueItem list \<Rightarrow> string" where
  "getUniqueFileName existingNames fileName currentQueue =
     (let dotIndex = lastIndexOf fileName (CHR ''.'');
          name = (case dotIndex of Some i \<Rightarrow> take i fileName | None \<Rightarrow> fileName);
          ext = (case dotIndex of Some i \<Rightarrow> drop i fileName | None \<Rightarrow> [])
      in while_isDuplicate currentQueue existingNames name ext fileName name 1)"

text \<open>
  The loop of \<^verbatim>\<open>addFiles\<close> over the new files (a name and the bytes each): every file is
  renamed against the queue followed by the items made so far, and enters as \<^verbatim>\<open>idle\<close>.
\<close>

fun addFiles_loop ::
  "string list \<Rightarrow> QueueItem list \<Rightarrow> QueueItem list \<Rightarrow> (string \<times> string) list \<Rightarrow> QueueItem list" where
  "addFiles_loop existingNames updatedQueue newItems [] = newItems"
| "addFiles_loop existingNames updatedQueue newItems (f # fs) =
     (let uniqueName = getUniqueFileName existingNames (fst f) (updatedQueue @ newItems);
          renamedFile = File uniqueName (snd f)
      in addFiles_loop existingNames updatedQueue
           (newItems @ [\<lparr>item_file = renamedFile, status = Idle, jobId = None,
                          resultUrl = None, error = None\<rparr>]) fs)"

definition addFiles_queue :: "string list \<Rightarrow> QueueItem list \<Rightarrow> (string \<times> string) list \<Rightarrow> QueueItem list" where
  "addFiles_queue existingNames prev newFiles = prev @ addFiles_loop existingNames prev [] newFiles"

section \<open>processItem: the upload request, its outcome, and the poll\<close>

datatype engine_mode = Auto | Pro

text \<open>The \<^verbatim>\<open>FormData\<close> posted to \<^verbatim>\<open>/api/upload\<close>: the fields \<^verbatim>\<open>file\<close>, \<^verbatim>\<open>text\<close> and \<^verbatim>\<open>mode\<close>.\<close>

record formData =
  fd_file :: fileobj
  fd_text :: string
  fd_mode :: engine_mode

definition upload_formData :: "engine_mode \<Rightarrow> string \<Rightarrow> fileobj \<Rightarrow> formData" where
  "upload_formData engineMode textRef f =
     \<lparr>fd_file = f, fd_text = (if engineMode = Pro then textRef else ''''), fd_mode = engineMode\<rparr>"

text \<open>
  \<^verbatim>\<open>x || d\<close> for a string that may be undefined: the empty string is falsy as well.
\<close>

definition or_default :: "string option \<Rightarrow> string \<Rightarrow> string" where
  "or_default x d = (case x of None \<Rightarrow> d | Some v \<Rightarrow> (if v = [] then d else v))"

text \<open>
  Every write to the queue has the shape
  \<^verbatim>\<open>setQueue(prev => { const copy = [...prev]; if (copy[index]) copy[index] = {...}; return copy; })\<close>:
  it changes the row at a position, and does nothing when the position is past the end.
\<close>

definition patch_at :: "nat \<Rightarrow> (QueueItem \<Rightarrow> QueueItem) \<Rightarrow> QueueItem list \<Rightarrow> QueueItem list" where
  "patch_at index f prev = (if index < length prev then prev[index := f (prev ! index)] else prev)"

text \<open>
  What the upload call can end in: a job id, a rejection by the server with an optional
  \<^verbatim>\<open>detail\<close>, or a failure of \<^verbatim>\<open>fetch\<close> itself with its message.
\<close>

datatype upload_response =
  UploadOk string
| UploadRejected "string option"
| UploadThrew string

text \<open>The message of the error that the \<^verbatim>\<open>try\<close> block of \<^verbatim>\<open>processItem\<close> throws, if any.\<close>

fun upload_error :: "upload_response \<Rightarrow> string option" where
  "upload_error (UploadOk job_id) = None"
| "upload_error (UploadRejected detail) = Some (or_default detail ''Upload Failed'')"
| "upload_error (UploadThrew message) = Some message"

text \<open>
  The rest of \<^verbatim>\<open>processItem\<close> once the upload call has ended: the row becomes \<^verbatim>\<open>queued\<close> with
  its job id and a poll is scheduled, or it becomes \<^verbatim>\<open>error\<close> with the message. The second
  component is the poll to schedule \<^verbatim>\<open>(index, jobId)\<close>, if any.
\<close>

definition processItem_settle ::
  "nat \<Rightarrow> upload_response \<Rightarrow> QueueItem list \<Rightarrow> QueueItem list \<times> (nat \<times> string) option" where
  "processItem_settle index resp q =
     (case resp of
        UploadOk job_id \<Rightarrow>
          (patch_at index (\<lambda>it. it\<lparr>status := Queued, jobId := Some job_id\<rparr>) q, Some (index, job_id))
      | _ \<Rightarrow>
          (patch_at index (\<lambda>it. it\<lparr>status := Error, error := upload_error resp\<rparr>) q, None))"

text \<open>
  The job record of \<^verbatim>\<open>/api/jobs/{id}\<close>. The server reports one of four states; the branch
  that copies \<^verbatim>\<open>jobData.status\<close> into the row is commented \<^verbatim>\<open>"queued" or "processing"\<close>.
\<close>

datatype job_status = JobQueued | JobProcessing | JobCompleted | JobFailed

record jobData =
  job_status :: job_status
  result_url :: string
  job_error :: "string option"

datatype poll_response =
  PollOk jobData
| PollNotOk nat string string
| PollThrew string

text \<open>The message of the error thrown inside \<^verbatim>\<open>poll\<close>, if any.\<close>

fun poll_error :: "poll_response \<Rightarrow> string option" where
  "poll_error (PollOk jd) =
     (if job_status jd = JobFailed then Some (or_default (job_error jd) ''Job failed on server'')
      else None)"
| "poll_error (PollNotOk code txt statusText) =
     Some (''Server Error '' @ String_of code @ '': '' @ or_default (Some txt) statusText)"
| "poll_error (PollThrew message) = Some message"

text \<open>
  One run of \<^verbatim>\<open>poll\<close> for the row at \<^verbatim>\<open>index\<close>. The second component tells whether
  \<^verbatim>\<open>setTimeout(poll, 2000)\<close> was called, that is, whether the poll goes on.
\<close>

definition poll :: "nat \<Rightarrow> poll_response \<Rightarrow> QueueItem list \<Rightarrow> QueueItem list \<times> bool" where
  "poll index resp q =
     (case poll_error resp of
        Some message \<Rightarrow>
          (patch_at index (\<lambda>it. it\<lparr>status := Error, error := Some message\<rparr>) q, False)
      | None \<Rightarrow>
          (case resp of
             PollOk jd \<Rightarrow>
               (case job_status jd of
                  JobCompleted \<Rightarrow>
                    (patch_at index
                       (\<lambda>it. it\<lparr>status := Done,
                                resultUrl := Some (''http://localhost:8000'' @ result_url jd)\<rparr>) q,
                     False)
                | JobProcessing \<Rightarrow> (patch_at index (\<lambda>it. it\<lparr>status := Processing\<rparr>) q, True)
                | _ \<Rightarrow> (patch_at index (\<lambda>it. it\<lparr>status := Queued\<rparr>) q, True))
           | _ \<Rightarrow> (q, False)))"

section \<open>runBatchLogic and processNext\<close>

text \<open>
  The variables that one call of \<^verbatim>\<open>runBatchLogic\<close> closes over: the snapshot
  \<^verbatim>\<open>pendingIndices\<close>, \<^verbatim>\<open>CONCURRENCY_LIMIT\<close>, \<^verbatim>\<open>activeCount\<close>, \<^verbatim>\<open>nextPendingRefIndex\<close> and
  \<^verbatim>\<open>completedCount\<close>, and the \<^verbatim>\<open>engineMode\<close> of the render whose \<^verbatim>\<open>processItem\<close> it calls.
  The calls \<^verbatim>\<open>processItem(realQueueIndex, item.file)\<close> are effects: \<open>dispatched\<close> lists them
  in order, \<open>inflight\<close> holds those whose upload call has not ended yet, with the request
  each one sent. \<open>resolved\<close> tells whether the promise of the run has been resolved.
\<close>

record batch_run =
  run_engineMode :: engine_mode
  pendingIndices :: "nat list"
  CONCURRENCY_LIMIT :: int
  activeCount :: int
  nextPendingRefIndex :: nat
  completedCount :: nat
  dispatched :: "(nat \<times> fileobj) list"
  inflight :: "(nat \<times> formData) list"
  resolved :: bool

text \<open>
  The items of the local storage are JavaScript strings, taken here as lists of UTF-16
  code units. \<^verbatim>\<open>parseInt(s, 10)\<close> skips leading white space (the code points
  \<^verbatim>\<open>WhiteSpace\<close> and \<^verbatim>\<open>LineTerminator\<close> of the language, all of them single code units),
  reads a sign, then the longest run of decimal digits; \<open>None\<close> stands for \<^verbatim>\<open>NaN\<close>.
\<close>

type_synonym code_units = "int list"

definition code_units_of :: "string \<Rightarrow> code_units" where
  "code_units_of s = map of_char s"

definition is_space :: "int \<Rightarrow> bool" where
  "is_space c =
     (c \<in> set [0x09, 0x0A, 0x0B, 0x0C, 0x0D, 0x20, 0xA0, 0x1680, 0x2028, 0x2029, 0x202F,
               0x205F, 0x3000, 0xFEFF]
      \<or> (0x2000 \<le> c \<and> c \<le> 0x200A))"

definition is_digit :: "int \<Rightarrow> bool" where
  "is_digit c = (48 \<le> c \<and> c \<le> 57)"

definition digits_number :: "code_units \<Rightarrow> int" where
  "digits_number ds = foldl (\<lambda>a c. 10 * a + (c - 48)) 0 ds"

definition parseInt10 :: "code_units \<Rightarrow> int option" where
  "parseInt10 s =
     (let s1 = dropWhile is_space s;
          neg = (case s1 of [] \<Rightarrow> False | c # r \<Rightarrow> c = 0x2D);
          s2 = (case s1 of [] \<Rightarrow> [] | c # r \<Rightarrow> (if c = 0x2D \<or> c = 0x2B then r else s1));
          ds = takeWhile is_digit s2
      in if ds = [] then None
         else Some (if neg then - digits_number ds else digits_number ds))"

text \<open>
  \<^verbatim>\<open>storedLimit = parseInt(localStorage.getItem("concurrency_limit") || "2", 10)\<close> and
  \<^verbatim>\<open>CONCURRENCY_LIMIT = storedLimit > 0 ? storedLimit : 2\<close>; the string \<^verbatim>\<open>"2"\<close> is the one
  code unit \<^verbatim>\<open>0x32\<close>.
\<close>

definition effective_limit :: "code_units option \<Rightarrow> int" where
  "effective_limit stored =
     (let item = (case stored of None \<Rightarrow> [0x32] | Some v \<Rightarrow> (if v = [] then [0x32] else v));
          storedLimit = parseInt10 item
      in case storedLimit of None \<Rightarrow> 2 | Some n \<Rightarrow> (if n > 0 then n else 2))"

text \<open>The positions of the rows that are \<^verbatim>\<open>idle\<close>, in order.\<close>

definition idle_indices :: "QueueItem list \<Rightarrow> nat list" where
  "idle_indices currentQ =
     map snd (filter (\<lambda>x. fst x = Idle)
       (map (\<lambda>(item, index). (status item, index)) (zip currentQ [0..<length currentQ])))"

text \<open>
  The \<^verbatim>\<open>while\<close> loop of \<^verbatim>\<open>processNext\<close>. It reads \<^verbatim>\<open>queueRef.current\<close> and \<^verbatim>\<open>textRef.current\<close>,
  which do not change while it runs, and works on the variables of the run and on the
  queue: starting \<^verbatim>\<open>processItem\<close> marks the row \<^verbatim>\<open>uploading\<close> and sends the request.
\<close>

function processNext_while ::
  "QueueItem list \<Rightarrow> string \<Rightarrow> batch_run \<times> QueueItem list \<Rightarrow> batch_run \<times> QueueItem list" where
  "processNext_while qref tref (r, q) =
     (if activeCount r < CONCURRENCY_LIMIT r \<and> nextPendingRefIndex r < length (pendingIndices r)
      then
        (let realQueueIndex = pendingIndices r ! nextPendingRefIndex r
         in if \<not> realQueueIndex < length qref
               \<or> \<not> instanceof_File (item_file (qref ! realQueueIndex))
            then processNext_while qref tref
                   (r\<lparr>nextPendingRefIndex := nextPendingRefIndex r + 1\<rparr>, q)
            else processNext_while qref tref
                   (r\<lparr>nextPendingRefIndex := nextPendingRefIndex r + 1,
                      activeCount := activeCount r + 1,
                      dispatched := dispatched r
                        @ [(realQueueIndex, item_file (qref ! realQueueIndex))],
                      inflight := inflight r
                        @ [(realQueueIndex,
                            upload_formData (run_engineMode r) tref
                              (item_file (qref ! realQueueIndex)))]\<rparr>,
                    patch_at realQueueIndex (\<lambda>it. it\<lparr>status := Uploading\<rparr>) q))
      else (r, q))"
  by pat_completeness auto
termination
  by (relation "measure (\<lambda>(qref, tref, r, q). length (pendingIndices r) - nextPendingRefIndex r)")
     auto

declare processNext_while.simps [simp del]

section \<open>The state of the component\<close>

text \<open>
  The React state of \<^verbatim>\<open>UploadModal\<close> (\<^verbatim>\<open>queue\<close>, \<^verbatim>\<open>text\<close>, \<^verbatim>\<open>engineMode\<close>, \<^verbatim>\<open>isGlobalLoading\<close>,
  \<^verbatim>\<open>stats\<close>, \<^verbatim>\<open>existingNames\<close>, \<^verbatim>\<open>shouldAutoRun\<close>) with every update applied that has been
  queued so far, and what the handlers see of the last render that React has committed:
  the three refs, which the effect of that render filled (\<open>queueRef\<close> and
  \<open>isGlobalLoadingRef\<close> are therefore also the \<^verbatim>\<open>queue\<close> and the \<^verbatim>\<open>isGlobalLoading\<close> that the
  closures of that render hold), and the \<^verbatim>\<open>engineMode\<close> and the \<^verbatim>\<open>existingNames\<close> of that
  render. Further the pending debounce timer of the auto-run effect (with the
  \<^verbatim>\<open>engineMode\<close> its callback closed over) and the dependencies that effect last ran with,
  the number of \<^verbatim>\<open>Clear All\<close> clicks that still wait for their \<^verbatim>\<open>batch-delete\<close> call, the
  \<^verbatim>\<open>concurrency_limit\<close> item of the local storage, the batch runs started so far, and the
  polls that are scheduled, each for a position and a job id.
\<close>

record modal =
  queue :: "QueueItem list"
  textState :: string
  engineMode :: engine_mode
  isGlobalLoading :: bool
  stats :: "nat \<times> nat"
  existingNames :: "string list"
  shouldAutoRun :: bool
  queueRef :: "QueueItem list"
  textRef :: string
  isGlobalLoadingRef :: bool
  renderedMode :: engine_mode
  renderedNames :: "string list"
  autoRunTimer :: "engine_mode option"
  autoRunDeps :: "bool \<times> bool"
  clearsPending :: nat
  concurrency_limit :: "code_units option"
  runs :: "batch_run list"
  polls :: "(nat \<times> string) list"

text \<open>\<^verbatim>\<open>processNext\<close> of the run numbered \<open>k\<close>.\<close>

definition processNext :: "nat \<Rightarrow> modal \<Rightarrow> modal" where
  "processNext k s =
     (let r = runs s ! k
      in if nextPendingRefIndex r \<ge> length (pendingIndices r) \<and> activeCount r = 0
         then s\<lparr>isGlobalLoading := False, runs := (runs s)[k := r\<lparr>resolved := True\<rparr>]\<rparr>
         else (case processNext_while (queueRef s) (textRef s) (r, queue s) of
                 (r', q') \<Rightarrow> s\<lparr>queue := q', runs := (runs s)[k := r']\<rparr>))"

text \<open>\<^verbatim>\<open>runBatchLogic\<close>, called from a render whose \<^verbatim>\<open>engineMode\<close> was \<open>em\<close>.\<close>

definition runBatchLogic :: "engine_mode \<Rightarrow> modal \<Rightarrow> modal" where
  "runBatchLogic em s =
     (if isGlobalLoadingRef s then s
      else
        (let currentQ = queueRef s;
             pending = idle_indices currentQ
         in if length pending = 0 then s\<lparr>isGlobalLoading := False\<rparr>
            else processNext (length (runs s))
                   (s\<lparr>isGlobalLoading := True,
                      stats := (0, length pending),
                      runs := runs s
                        @ [\<lparr>run_engineMode = em,
                             pendingIndices = pending,
                             CONCURRENCY_LIMIT = effective_limit (concurrency_limit s),
                             activeCount = 0,
                             nextPendingRefIndex = 0,
                             completedCount = 0,
                             dispatched = [],
                             inflight = [],
                             resolved = False\<rparr>]\<rparr>)))"

text \<open>
  The upload call numbered \<open>j\<close> of run \<open>k\<close> ends with \<open>resp\<close>: the rest of \<^verbatim>\<open>processItem\<close>
  runs, then the \<^verbatim>\<open>finally\<close> callback of \<^verbatim>\<open>processNext\<close>, whatever the outcome: the error
  that \<^verbatim>\<open>processItem\<close> throws again after recording it reaches no handler.
\<close>

definition upload_settled :: "nat \<Rightarrow> nat \<Rightarrow> upload_response \<Rightarrow> modal \<Rightarrow> modal" where
  "upload_settled k j resp s =
     (if k < length (runs s) \<and> j < length (inflight (runs s ! k)) then
        (let r = runs s ! k;
             index = fst (inflight r ! j);
             settled = processItem_settle index resp (queue s);
             r' = r\<lparr>inflight := take j (inflight r) @ drop (Suc j) (inflight r),
                    activeCount := activeCount r - 1,
                    completedCount := completedCount r + 1\<rparr>
         in processNext k
              (s\<lparr>queue := fst settled,
                 polls := polls s @ (case snd settled of None \<Rightarrow> [] | Some p \<Rightarrow> [p]),
                 stats := (completedCount r', snd (stats s)),
                 runs := (runs s)[k := r']\<rparr>))
      else s)"

text \<open>The scheduled poll numbered \<open>p\<close> runs and receives \<open>resp\<close>.\<close>

definition poll_fired :: "nat \<Rightarrow> poll_response \<Rightarrow> modal \<Rightarrow> modal" where
  "poll_fired p resp s =
     (if p < length (polls s) then
        (let index = fst (polls s ! p);
             polled = poll index resp (queue s)
         in s\<lparr>queue := fst polled,
              polls := (if snd polled then polls s
                        else take p (polls s) @ drop (Suc p) (polls s))\<rparr>)
      else s)"

text \<open>\<^verbatim>\<open>addFiles\<close>, with the \<^verbatim>\<open>existingNames\<close> of the render it was defined in.\<close>

definition addFiles :: "(string \<times> string) list \<Rightarrow> modal \<Rightarrow> modal" where
  "addFiles newFiles s =
     s\<lparr>queue := addFiles_queue (renderedNames s) (queue s) newFiles, shouldAutoRun := True\<rparr>"

text \<open>
  \<^verbatim>\<open>removeFile\<close>, once confirmed. \<^verbatim>\<open>const item = queue[index]\<close> reads the queue of the
  render; the button that calls it is rendered for every row of that queue that is not
  \<^verbatim>\<open>processing\<close>. \<^verbatim>\<open>setQueue(prev => prev.filter((_, i) => i !== index))\<close> then works on the
  queue as it is.
\<close>

definition removeFile :: "nat \<Rightarrow> modal \<Rightarrow> modal" where
  "removeFile index s =
     (if index < length (queueRef s) \<and> status (queueRef s ! index) \<noteq> Processing
      then s\<lparr>queue := take index (queue s) @ drop (Suc index) (queue s)\<rparr>
      else s)"

text \<open>
  The \<^verbatim>\<open>Clear All\<close> button, once confirmed. It is rendered while the \<^verbatim>\<open>isGlobalLoading\<close> of
  the render is false and its queue is not empty. When a row of that queue has a job id
  the handler first awaits the \<^verbatim>\<open>batch-delete\<close> call, and \<^verbatim>\<open>setQueue([])\<close> runs once that
  call has ended, whatever its outcome; otherwise \<^verbatim>\<open>setQueue([])\<close> runs at once.
\<close>

definition clearAll_clicked :: "modal \<Rightarrow> modal" where
  "clearAll_clicked s =
     (if \<not> isGlobalLoadingRef s \<and> queueRef s \<noteq> [] then
        (let idsToDelete = filter (\<lambda>x. x \<noteq> None) (map jobId (queueRef s))
         in if length idsToDelete > 0 then s\<lparr>clearsPending := clearsPending s + 1\<rparr>
            else s\<lparr>queue := []\<rparr>)
      else s)"

definition clearAll_deleted :: "modal \<Rightarrow> modal" where
  "clearAll_deleted s =
     (if clearsPending s > 0 then s\<lparr>queue := [], clearsPending := clearsPending s - 1\<rparr> else s)"

text \<open>
  \<^verbatim>\<open>fetchRecentReports\<close> receives the report list (student name, URL and id each);
  \<open>wasEmpty\<close> is \<^verbatim>\<open>queue.length === 0\<close> as the render that made the call saw it.
\<close>

definition fetchRecentReports :: "bool \<Rightarrow> (string \<times> string \<times> string) list \<Rightarrow> modal \<Rightarrow> modal" where
  "fetchRecentReports wasEmpty data s =
     (let names = filter (\<lambda>n. n \<noteq> []) (map fst data);
          recent = map (\<lambda>(n, u, i). \<lparr>item_file = NameOnly n, status = Done, jobId = Some i,
                                      resultUrl = Some (''http://localhost:8000'' @ u),
                                      error = None\<rparr>) (take 5 data);
          s1 = s\<lparr>existingNames := names\<rparr>
      in if wasEmpty \<and> length recent > 0 then s1\<lparr>queue := recent\<rparr> else s1)"

text \<open>The callback of the debounce timer: \<^verbatim>\<open>runBatchLogic(); setShouldAutoRun(false)\<close>.\<close>

definition timer_fired :: "modal \<Rightarrow> modal" where
  "timer_fired s =
     (case autoRunTimer s of
        None \<Rightarrow> s
      | Some em \<Rightarrow> (runBatchLogic em (s\<lparr>autoRunTimer := None\<rparr>))\<lparr>shouldAutoRun := False\<rparr>)"

text \<open>
  React commits a render and runs its effects: the first effect copies \<^verbatim>\<open>queue\<close>, \<^verbatim>\<open>text\<close>
  and \<^verbatim>\<open>isGlobalLoading\<close> into the refs; the handlers are those of the new render, with its
  \<^verbatim>\<open>engineMode\<close> and \<^verbatim>\<open>existingNames\<close>; the auto-run effect, when \<^verbatim>\<open>shouldAutoRun\<close> or
  \<^verbatim>\<open>isGlobalLoading\<close> differs from what it last ran with, clears its timer and sets a new
  one if \<^verbatim>\<open>shouldAutoRun && !isGlobalLoading\<close>.
\<close>

definition commit :: "modal \<Rightarrow> modal" where
  "commit s =
     (let s1 = s\<lparr>queueRef := queue s, textRef := textState s,
                 isGlobalLoadingRef := isGlobalLoading s,
                 renderedMode := engineMode s, renderedNames := existingNames s\<rparr>
      in if autoRunDeps s1 = (shouldAutoRun s1, isGlobalLoading s1) then s1
         else s1\<lparr>autoRunTimer :=
                   (if shouldAutoRun s1 \<and> \<not> isGlobalLoading s1 then Some (engineMode s1) else None),
                 autoRunDeps := (shouldAutoRun s1, isGlobalLoading s1)\<rparr>)"

text \<open>
  The events of the component: what the user does, what the server answers, the timers,
  and the renders. JavaScript runs one handler at a time, so each event is one handler
  run to its end. A handler only queues its state updates; React commits the render that
  shows them, and runs the effects that fill the refs, at some later time, which is the
  event \<open>Render\<close>. Handlers that run before that render see the refs and the closures of
  the previous one. The end of an upload is one event: the rest of \<^verbatim>\<open>processItem\<close>
  and the \<^verbatim>\<open>finally\<close> callback that follows it. \<open>RunBatch\<close> is a call of \<^verbatim>\<open>runBatch\<close> whether or
  not the button is disabled, so that the guard inside \<^verbatim>\<open>runBatchLogic\<close> is what is
  examined. \<open>ClearAll\<close> is the confirmed click, \<open>ClearAllDeleted\<close> the end of a \<^verbatim>\<open>batch-delete\<close>
  call.
\<close>

datatype event =
  AddFiles "(string \<times> string) list"
| RunBatch
| TimerFired
| UploadSettled nat nat upload_response
| PollFired nat poll_response
| RemoveFile nat
| ClearAll
| ClearAllDeleted
| SetText string
| SetEngineMode engine_mode
| SetConcurrency code_units
| ReportsLoaded bool "(string \<times> string \<times> string) list"
| Render

fun handle :: "event \<Rightarrow> modal \<Rightarrow> modal" where
  "handle (AddFiles newFiles) s = (if length newFiles > 0 then addFiles newFiles s else s)"
| "handle RunBatch s = runBatchLogic (renderedMode s) s"
| "handle TimerFired s = timer_fired s"
| "handle (UploadSettled k j resp) s = upload_settled k j resp s"
| "handle (PollFired p resp) s = poll_fired p resp s"
| "handle (RemoveFile index) s = removeFile index s"
| "handle ClearAll s = clearAll_clicked s"
| "handle ClearAllDeleted s = clearAll_deleted s"
| "handle (SetText t) s = s\<lparr>textState := t\<rparr>"
| "handle (SetEngineMode m) s = s\<lparr>engineMode := m\<rparr>"
| "handle (SetConcurrency v) s = s\<lparr>concurrency_limit := Some v\<rparr>"
| "handle (ReportsLoaded wasEmpty data) s = fetchRecentReports wasEmpty data s"
| "handle Render s = commit s"

definition run_events :: "event list \<Rightarrow> modal \<Rightarrow> modal" where
  "run_events es s = fold handle es s"

text \<open>The component when it is mounted; \<open>t\<close> is the stored reference text.\<close>

definition mounted :: "string \<Rightarrow> modal" where
  "mounted t =
     \<lparr>queue = [], textState = t, engineMode = Pro, isGlobalLoading = False, stats = (0, 0),
      existingNames = [], shouldAutoRun = False, queueRef = [], textRef = t,
      isGlobalLoadingRef = False, renderedMode = Pro, renderedNames = [],
      autoRunTimer = None, autoRunDeps = (False, False), clearsPending = 0,
      concurrency_limit = None, runs = [], polls = []\<rparr>"

section \<open>Properties of the name resolver\<close>

lemma lastIndexOf_None_iff: "lastIndexOf s c = None \<longleftrightarrow> c \<notin> set s"
  by (induction s) (auto split: option.splits)

lemma lastIndexOf_append_last:
  "c \<notin> set t \<Longrightarrow> lastIndexOf (a @ c # t) c = Some (length a)"
  by (induction a) (auto simp: lastIndexOf_None_iff split: option.splits)

lemma lastIndexOf_Some_split:
  "lastIndexOf s c = Some i \<Longrightarrow> \<exists>t. drop i s = c # t \<and> c \<notin> set t \<and> i < length s"
proof (induction s arbitrary: i)
  case Nil
  then show ?case by simp
next
  case (Cons x xs)
  show ?case
  proof (cases "lastIndexOf xs c")
    case None
    with Cons.prems show ?thesis
      by (auto simp: lastIndexOf_None_iff split: if_splits)
  next
    case (Some j)
    with Cons.prems have i: "i = Suc j" by simp
    from Cons.IH [OF Some] show ?thesis unfolding i by simp
  qed
qed

lemma digit_char_not_dot: "d < 10 \<Longrightarrow> digit_char d \<noteq> CHR ''.''"
proof
  assume d: "d < 10" and "digit_char d = CHR ''.''"
  then have "(of_char (digit_char d) :: nat) = of_char (CHR ''.'')" by simp
  with d show False by (simp add: digit_char_def)
qed

lemma String_of_no_dot: "CHR ''.'' \<notin> set (String_of n)"
proof (induction n rule: String_of.induct)
  case (1 n)
  show ?case
  proof (cases "n < 10")
    case True
    then show ?thesis
      using digit_char_not_dot [of n] by (subst String_of.simps) auto
  next
    case False
    then have "CHR ''.'' \<notin> set (String_of (n div 10))" using 1 by simp
    moreover have "digit_char (n mod 10) \<noteq> CHR ''.''" by (rule digit_char_not_dot) simp
    ultimately show ?thesis using False by (subst String_of.simps) auto
  qed
qed

lemma padStart2_no_dot: "CHR ''.'' \<notin> set (padStart2 (String_of n))"
  by (auto simp: padStart2_def String_of_no_dot)

lemma stem_of_suffixed:
  "stem_of (suffixed_base (stem_of f) c @ ext_of f) = suffixed_base (stem_of f) c"
proof (cases "lastIndexOf f (CHR ''.'')")
  case None
  then have nodot: "CHR ''.'' \<notin> set f" by (simp add: lastIndexOf_None_iff)
  from None have "stem_of f = f" "ext_of f = []" by (simp_all add: stem_of_def ext_of_def)
  moreover have "CHR ''.'' \<notin> set (suffixed_base f c)"
    using nodot padStart2_no_dot [of c] by (simp add: suffixed_base_def)
  then have "lastIndexOf (suffixed_base f c) (CHR ''.'') = None"
    by (simp add: lastIndexOf_None_iff)
  ultimately show ?thesis by (simp add: stem_of_def)
next
  case (Some i)
  then obtain t where t: "drop i f = CHR ''.'' # t" "CHR ''.'' \<notin> set t"
    using lastIndexOf_Some_split by blast
  from Some have "ext_of f = CHR ''.'' # t" using t by (simp add: ext_of_def)
  then show ?thesis
    using lastIndexOf_append_last [OF t(2), of "suffixed_base (stem_of f) c"]
    by (simp add: stem_of_def [of "suffixed_base (stem_of f) c @ CHR ''.'' # t"])
qed

lemma while_isDuplicate_free:
  "\<not> isDuplicate Q H newName newBaseName \<Longrightarrow>
     while_isDuplicate Q H name ext newName newBaseName counter = newName"
  by (subst while_isDuplicate.simps) simp

lemma while_isDuplicate_least:
  "isDuplicate Q H newName newBaseName \<Longrightarrow>
     \<exists>c\<ge>counter. while_isDuplicate Q H name ext newName newBaseName counter
            = suffixed_base name c @ ext
        \<and> \<not> isDuplicate Q H (suffixed_base name c @ ext) (suffixed_base name c)
        \<and> (\<forall>k. counter \<le> k \<and> k < c \<longrightarrow>
              isDuplicate Q H (suffixed_base name k @ ext) (suffixed_base name k))"
proof (induction Q H name ext newName newBaseName counter rule: while_isDuplicate.induct)
  case (1 Q H name ext newName newBaseName counter)
  let ?nb = "suffixed_base name counter"
  let ?nn = "?nb @ ext"
  have step: "while_isDuplicate Q H name ext newName newBaseName counter
      = while_isDuplicate Q H name ext ?nn ?nb (counter + 1)"
    using "1.prems" by (subst while_isDuplicate.simps) (simp add: suffixed_base_def Let_def)
  show ?case
  proof (cases "isDuplicate Q H ?nn ?nb")
    case False
    then have "while_isDuplicate Q H name ext ?nn ?nb (counter + 1) = ?nn"
      by (rule while_isDuplicate_free)
    with step False show ?thesis by (intro exI [of _ counter]) auto
  next
    case True
    have "\<exists>c\<ge>counter + 1. while_isDuplicate Q H name ext ?nn ?nb (counter + 1)
            = suffixed_base name c @ ext
        \<and> \<not> isDuplicate Q H (suffixed_base name c @ ext) (suffixed_base name c)
        \<and> (\<forall>k. counter + 1 \<le> k \<and> k < c \<longrightarrow>
              isDuplicate Q H (suffixed_base name k @ ext) (suffixed_base name k))"
      using "1.IH" [OF "1.prems" refl refl refl] True by (simp add: suffixed_base_def)
    then obtain c where c: "counter + 1 \<le> c"
      "while_isDuplicate Q H name ext ?nn ?nb (counter + 1) = suffixed_base name c @ ext"
      "\<not> isDuplicate Q H (suffixed_base name c @ ext) (suffixed_base name c)"
      "\<forall>k. counter + 1 \<le> k \<and> k < c \<longrightarrow>
              isDuplicate Q H (suffixed_base name k @ ext) (suffixed_base name k)"
      by blast
    have "\<forall>k. counter \<le> k \<and> k < c \<longrightarrow>
              isDuplicate Q H (suffixed_base name k @ ext) (suffixed_base name k)"
    proof (intro allI impI)
      fix k assume k: "counter \<le> k \<and> k < c"
      show "isDuplicate Q H (suffixed_base name k @ ext) (suffixed_base name k)"
      proof (cases "k = counter")
        case kc: True
        show ?thesis using True unfolding kc by simp
      next
        case False
        with k c(4) show ?thesis by simp
      qed
    qed
    with c step show ?thesis by (intro exI [of _ c]) auto
  qed
qed

lemma getUniqueFileName_unfold:
  "getUniqueFileName H f Q = while_isDuplicate Q H (stem_of f) (ext_of f) f (stem_of f) 1"
  by (simp add: getUniqueFileName_def stem_of_def ext_of_def Let_def)

lemma length_padStart2_ge: "2 \<le> length (padStart2 s)"
  by (simp add: padStart2_def)

lemma length_padStart2_small: "c < 100 \<Longrightarrow> length (padStart2 (String_of c)) = 2"
proof -
  assume c: "c < 100"
  show ?thesis
  proof (cases "c < 10")
    case True
    then show ?thesis by (subst String_of.simps) (simp add: padStart2_def)
  next
    case False
    then have "c div 10 < 10" using c by simp
    then have "String_of (c div 10) = [digit_char (c div 10)]"
      by (subst String_of.simps) simp
    with False show ?thesis by (subst String_of.simps) (simp add: padStart2_def)
  qed
qed

lemma getUniqueFileName_cases:
  "(\<not> isDuplicate Q H f (stem_of f) \<and> getUniqueFileName H f Q = f) \<or>
   (isDuplicate Q H f (stem_of f) \<and>
    (\<exists>c\<ge>1. getUniqueFileName H f Q = suffixed_base (stem_of f) c @ ext_of f
        \<and> \<not> isDuplicate Q H (suffixed_base (stem_of f) c @ ext_of f) (suffixed_base (stem_of f) c)
        \<and> (\<forall>k. 1 \<le> k \<and> k < c \<longrightarrow>
              isDuplicate Q H (suffixed_base (stem_of f) k @ ext_of f) (suffixed_base (stem_of f) k))))"
proof (cases "isDuplicate Q H f (stem_of f)")
  case False
  then show ?thesis
    by (simp add: getUniqueFileName_unfold while_isDuplicate_free)
next
  case True
  from while_isDuplicate_least [OF True, of 1 "stem_of f" "ext_of f"] True
  show ?thesis by (simp add: getUniqueFileName_unfold)
qed

section \<open>Properties of the upload request and of the poll\<close>

lemma length_patch_at [simp]: "length (patch_at i f q) = length q"
  by (simp add: patch_at_def)

lemma nth_patch_at:
  "j < length q \<Longrightarrow> patch_at i f q ! j = (if j = i then f (q ! j) else q ! j)"
  by (simp add: patch_at_def)

lemma patch_at_beyond: "length q \<le> i \<Longrightarrow> patch_at i f q = q"
  by (simp add: patch_at_def)

lemma poll_in_progress:
  "job_status jd = JobQueued \<Longrightarrow>
     poll i (PollOk jd) q = (patch_at i (\<lambda>it. it\<lparr>status := Queued\<rparr>) q, True)"
  "job_status jd = JobProcessing \<Longrightarrow>
     poll i (PollOk jd) q = (patch_at i (\<lambda>it. it\<lparr>status := Processing\<rparr>) q, True)"
  by (simp_all add: poll_def)

lemma poll_completed:
  "job_status jd = JobCompleted \<Longrightarrow>
     poll i (PollOk jd) q =
       (patch_at i (\<lambda>it. it\<lparr>status := Done,
                             resultUrl := Some (''http://localhost:8000'' @ result_url jd)\<rparr>) q, False)"
  by (simp add: poll_def)

lemma poll_failed:
  "job_status jd = JobFailed \<Longrightarrow>
     poll i (PollOk jd) q =
       (patch_at i (\<lambda>it. it\<lparr>status := Error,
                             error := Some (or_default (job_error jd) ''Job failed on server'')\<rparr>) q,
        False)"
  by (simp add: poll_def)

lemma length_fst_poll [simp]: "length (fst (poll i resp q)) = length q"
  by (cases resp) (auto simp: poll_def split: option.splits job_status.splits)

lemma length_fst_processItem_settle [simp]: "length (fst (processItem_settle i resp q)) = length q"
  by (cases resp) (simp_all add: processItem_settle_def)

section \<open>Invariants of a batch run\<close>

text \<open>
  What holds of the variables of every run at all times: \<^verbatim>\<open>activeCount\<close> counts the upload
  calls that have not ended, it stays within the limit, the limit is at least 1, the cursor
  stays within the snapshot, and a resolved run has nothing in flight.
\<close>

definition run_ok :: "batch_run \<Rightarrow> bool" where
  "run_ok r \<longleftrightarrow>
     activeCount r = int (length (inflight r))
     \<and> activeCount r \<le> CONCURRENCY_LIMIT r
     \<and> 1 \<le> CONCURRENCY_LIMIT r
     \<and> nextPendingRefIndex r \<le> length (pendingIndices r)
     \<and> (resolved r \<longrightarrow> inflight r = [])"

lemma effective_limit_pos: "1 \<le> effective_limit stored"
  by (simp add: effective_limit_def Let_def split: option.splits)

lemma processNext_while_keeps:
  "processNext_while qref tref rq = rq' \<Longrightarrow>
     CONCURRENCY_LIMIT (fst rq') = CONCURRENCY_LIMIT (fst rq)
     \<and> pendingIndices (fst rq') = pendingIndices (fst rq)
     \<and> resolved (fst rq') = resolved (fst rq)
     \<and> completedCount (fst rq') = completedCount (fst rq)
     \<and> run_engineMode (fst rq') = run_engineMode (fst rq)
     \<and> nextPendingRefIndex (fst rq) \<le> nextPendingRefIndex (fst rq')
     \<and> length (snd rq') = length (snd rq)"
proof (induction qref tref rq arbitrary: rq' rule: processNext_while.induct)
  case (1 qref tref r q)
  show ?case
  proof (cases "activeCount r < CONCURRENCY_LIMIT r
      \<and> nextPendingRefIndex r < length (pendingIndices r)")
    case False
    with "1.prems" show ?thesis by (simp add: processNext_while.simps)
  next
    case True
    let ?i = "pendingIndices r ! nextPendingRefIndex r"
    show ?thesis
    proof (cases "\<not> ?i < length qref \<or> \<not> instanceof_File (item_file (qref ! ?i))")
      case skip: True
      from "1.prems" True skip
      have "processNext_while qref tref (r\<lparr>nextPendingRefIndex := nextPendingRefIndex r + 1\<rparr>, q) = rq'"
        by (subst (asm) processNext_while.simps) (simp add: Let_def)
      from "1.IH"(1) [OF True refl skip this] show ?thesis by simp
    next
      case launch: False
      from "1.prems" True launch
      have "processNext_while qref tref
              (r\<lparr>nextPendingRefIndex := nextPendingRefIndex r + 1,
                 activeCount := activeCount r + 1,
                 dispatched := dispatched r @ [(?i, item_file (qref ! ?i))],
                 inflight := inflight r
                   @ [(?i, upload_formData (run_engineMode r) tref (item_file (qref ! ?i)))]\<rparr>,
               patch_at ?i (\<lambda>it. it\<lparr>status := Uploading\<rparr>) q) = rq'"
        by (subst (asm) processNext_while.simps) (simp add: Let_def)
      from "1.IH"(2) [OF True refl launch this] show ?thesis by simp
    qed
  qed
qed

lemma processNext_while_run_ok:
  "processNext_while qref tref rq = rq' \<Longrightarrow> run_ok (fst rq) \<Longrightarrow> \<not> resolved (fst rq) \<Longrightarrow>
     run_ok (fst rq')"
proof (induction qref tref rq arbitrary: rq' rule: processNext_while.induct)
  case (1 qref tref r q)
  show ?case
  proof (cases "activeCount r < CONCURRENCY_LIMIT r
      \<and> nextPendingRefIndex r < length (pendingIndices r)")
    case False
    with "1.prems" show ?thesis by (simp add: processNext_while.simps)
  next
    case True
    let ?i = "pendingIndices r ! nextPendingRefIndex r"
    show ?thesis
    proof (cases "\<not> ?i < length qref \<or> \<not> instanceof_File (item_file (qref ! ?i))")
      case skip: True
      from "1.prems"(1) True skip
      have "processNext_while qref tref (r\<lparr>nextPendingRefIndex := nextPendingRefIndex r + 1\<rparr>, q) = rq'"
        by (subst (asm) processNext_while.simps) (simp add: Let_def)
      moreover have "run_ok (fst (r\<lparr>nextPendingRefIndex := nextPendingRefIndex r + 1\<rparr>, q))"
        using "1.prems"(2) True by (simp add: run_ok_def)
      ultimately show ?thesis using "1.IH"(1) [OF True refl skip] "1.prems"(3) by simp
    next
      case launch: False
      let ?r = "r\<lparr>nextPendingRefIndex := nextPendingRefIndex r + 1,
                 activeCount := activeCount r + 1,
                 dispatched := dispatched r @ [(?i, item_file (qref ! ?i))],
                 inflight := inflight r
                   @ [(?i, upload_formData (run_engineMode r) tref (item_file (qref ! ?i)))]\<rparr>"
      from "1.prems"(1) True launch
      have "processNext_while qref tref
              (?r, patch_at ?i (\<lambda>it. it\<lparr>status := Uploading\<rparr>) q) = rq'"
        by (subst (asm) processNext_while.simps) (simp add: Let_def)
      moreover have "run_ok (fst (?r, patch_at ?i (\<lambda>it. it\<lparr>status := Uploading\<rparr>) q))"
        using "1.prems"(2,3) True by (simp add: run_ok_def)
      ultimately show ?thesis using "1.IH"(2) [OF True refl launch] "1.prems"(3) by simp
    qed
  qed
qed

lemma processNext_frame:
  "shouldAutoRun (processNext k s) = shouldAutoRun s"
  "autoRunTimer (processNext k s) = autoRunTimer s"
  "autoRunDeps (processNext k s) = autoRunDeps s"
  "length (runs (processNext k s)) = length (runs s)"
  "queueRef (processNext k s) = queueRef s"
  "isGlobalLoadingRef (processNext k s) = isGlobalLoadingRef s"
  "polls (processNext k s) = polls s"
  "engineMode (processNext k s) = engineMode s"
  by (simp_all add: processNext_def Let_def split: prod.splits)

lemma processNext_length_queue: "length (queue (processNext k s)) = length (queue s)"
proof -
  obtain r' q' where w: "processNext_while (queueRef s) (textRef s) (runs s ! k, queue s) = (r', q')"
    by (cases "processNext_while (queueRef s) (textRef s) (runs s ! k, queue s)")
  from processNext_while_keeps [OF w] have "length q' = length (queue s)" by simp
  then show ?thesis using w by (simp add: processNext_def Let_def)
qed

lemma runBatchLogic_frame:
  "shouldAutoRun (runBatchLogic em s) = shouldAutoRun s"
  "autoRunTimer (runBatchLogic em s) = autoRunTimer s"
  "autoRunDeps (runBatchLogic em s) = autoRunDeps s"
  "queueRef (runBatchLogic em s) = queueRef s"
  "isGlobalLoadingRef (runBatchLogic em s) = isGlobalLoadingRef s"
  "polls (runBatchLogic em s) = polls s"
  "engineMode (runBatchLogic em s) = engineMode s"
  "length (queue (runBatchLogic em s)) = length (queue s)"
  by (simp_all add: runBatchLogic_def Let_def processNext_frame processNext_length_queue)

lemma upload_settled_frame:
  "shouldAutoRun (upload_settled k j resp s) = shouldAutoRun s"
  "autoRunTimer (upload_settled k j resp s) = autoRunTimer s"
  "autoRunDeps (upload_settled k j resp s) = autoRunDeps s"
  "queueRef (upload_settled k j resp s) = queueRef s"
  "isGlobalLoadingRef (upload_settled k j resp s) = isGlobalLoadingRef s"
  "engineMode (upload_settled k j resp s) = engineMode s"
  "length (runs (upload_settled k j resp s)) = length (runs s)"
  "length (queue (upload_settled k j resp s)) = length (queue s)"
  by (simp_all add: upload_settled_def Let_def processNext_frame processNext_length_queue)

lemma runBatchLogic_guard: "isGlobalLoadingRef s \<Longrightarrow> runBatchLogic em s = s"
  by (simp add: runBatchLogic_def)

section \<open>The concurrency limit that is read from the local storage\<close>

lemma of_char_digit_char: "d < 10 \<Longrightarrow> (of_char (digit_char d) :: nat) = 48 + d"
  by (simp add: digit_char_def)

lemma of_char_int: "(of_char c :: int) = int (of_char c)"
  by (simp only: of_nat_of_char)

lemma is_digit_digit_char: "d < 10 \<Longrightarrow> is_digit (of_char (digit_char d))"
  by (simp add: is_digit_def of_char_int of_char_digit_char)

lemma String_of_all_digits: "c \<in> set (String_of n) \<Longrightarrow> is_digit (of_char c)"
proof (induction n arbitrary: c rule: String_of.induct)
  case (1 n)
  show ?case
  proof (cases "n < 10")
    case True
    with "1.prems" show ?thesis
      by (subst (asm) String_of.simps) (simp add: is_digit_digit_char)
  next
    case False
    with "1.prems" have "c \<in> set (String_of (n div 10)) \<or> c = digit_char (n mod 10)"
      by (subst (asm) String_of.simps) auto
    then show ?thesis using "1.IH" [OF False] by (auto simp: is_digit_digit_char)
  qed
qed

lemma String_of_not_Nil: "String_of n \<noteq> []"
  by (subst String_of.simps) simp

lemma is_digit_plain: "is_digit c \<Longrightarrow> \<not> is_space c \<and> c \<noteq> 0x2D \<and> c \<noteq> 0x2B"
  by (auto simp: is_digit_def is_space_def)

lemma digits_number_snoc: "digits_number (ds @ [c]) = 10 * digits_number ds + (c - 48)"
  by (simp add: digits_number_def)

lemma digits_number_code_units:
  "\<forall>c\<in>set s. is_digit (of_char c) \<Longrightarrow> digits_number (code_units_of s) = int (digits_value s)"
proof (induction s rule: rev_induct)
  case Nil
  then show ?case by (simp add: digits_number_def digits_value_def code_units_of_def)
next
  case (snoc c s)
  have "48 \<le> (of_char c :: int)" using snoc.prems by (simp add: is_digit_def)
  then have "48 \<le> (of_char c :: nat)" by (simp add: of_char_int)
  then have "int (of_char c - 48) = of_char c - 48" by (simp add: of_char_int of_nat_diff)
  moreover have "digits_number (code_units_of s) = int (digits_value s)"
    using snoc by simp
  ultimately show ?case
    using digits_number_snoc [of "code_units_of s" "of_char c"]
    by (simp add: code_units_of_def digits_value_snoc)
qed

text \<open>The decimal numeral of \<open>n\<close> is read back as \<open>n\<close>.\<close>

lemma parseInt10_String_of: "parseInt10 (code_units_of (String_of n)) = Some (int n)"
proof -
  obtain c r where s: "code_units_of (String_of n) = c # r"
    using String_of_not_Nil [of n] by (cases "String_of n") (auto simp: code_units_of_def)
  have dig: "\<forall>x\<in>set (c # r). is_digit x"
    using String_of_all_digits [of _ n] unfolding s [symmetric] code_units_of_def by auto
  then have c: "\<not> is_space c" "c \<noteq> 0x2D" "c \<noteq> 0x2B"
    using is_digit_plain [of c] by auto
  have tw: "takeWhile is_digit (c # r) = c # r"
    using dig by (simp only: takeWhile_eq_all_conv)
  have "parseInt10 (c # r) = Some (digits_number (c # r))"
    unfolding parseInt10_def using c tw by (simp add: Let_def)
  moreover have "digits_number (code_units_of (String_of n)) = int (digits_value (String_of n))"
    by (rule digits_number_code_units) (use String_of_all_digits in blast)
  ultimately show ?thesis
    using digits_value_String_of [of n] s by simp
qed

lemma effective_limit_String_of:
  assumes "1 \<le> n"
  shows "effective_limit (Some (code_units_of (String_of n))) = int n"
proof -
  have "code_units_of (String_of n) \<noteq> []"
    using String_of_not_Nil [of n] by (simp add: code_units_of_def)
  then show ?thesis
    using assms by (simp add: effective_limit_def parseInt10_String_of)
qed

text \<open>
  A property of single runs that the initial run has and that the loop of \<^verbatim>\<open>processNext\<close>,
  the end of an upload and the resolution keep, holds of every run after every event.
\<close>

lemma runs_invariant_step:
  assumes init: "\<And>em q lim. P \<lparr>run_engineMode = em, pendingIndices = idle_indices q,
             CONCURRENCY_LIMIT = effective_limit lim, activeCount = 0, nextPendingRefIndex = 0,
             completedCount = 0, dispatched = [], inflight = [], resolved = False\<rparr>"
    and loop: "\<And>qref tref r q rq'. P r \<Longrightarrow> processNext_while qref tref (r, q) = rq' \<Longrightarrow> P (fst rq')"
    and settle: "\<And>r j. P r \<Longrightarrow> j < length (inflight r) \<Longrightarrow>
             P (r\<lparr>inflight := take j (inflight r) @ drop (Suc j) (inflight r),
                  activeCount := activeCount r - 1,
                  completedCount := completedCount r + 1\<rparr>)"
    and res: "\<And>r. P r \<Longrightarrow> length (pendingIndices r) \<le> nextPendingRefIndex r \<Longrightarrow>
             activeCount r = 0 \<Longrightarrow> P (r\<lparr>resolved := True\<rparr>)"
    and all: "\<forall>r\<in>set (runs s). P r"
  shows "\<forall>r\<in>set (runs (handle e s)). P r"
proof -
  have upd: "\<forall>r\<in>set (xs[k := x]). P r" if "P x" "\<forall>r\<in>set xs. P r" for xs k x
    using that set_update_subset_insert [of xs k x] by blast
  have next_all: "\<forall>r\<in>set (runs (processNext k s')). P r"
    if "k < length (runs s')" "\<forall>r\<in>set (runs s'). P r" for k s'
  proof -
    have pk: "P (runs s' ! k)" using that by simp
    have a: "P (fst (processNext_while (queueRef s') (textRef s') (runs s' ! k, queue s')))"
      by (rule loop [OF pk refl])
    have b: "P ((runs s' ! k)\<lparr>resolved := True\<rparr>)"
      if "nextPendingRefIndex (runs s' ! k) \<ge> length (pendingIndices (runs s' ! k))
              \<and> activeCount (runs s' ! k) = 0"
      using that by (intro res [OF pk]) simp_all
    show ?thesis
    proof (cases "nextPendingRefIndex (runs s' ! k) \<ge> length (pendingIndices (runs s' ! k))
              \<and> activeCount (runs s' ! k) = 0")
      case True
      then show ?thesis using upd [OF b [OF True] that(2)] by (simp add: processNext_def Let_def)
    next
      case False
      show ?thesis using upd [OF a that(2)]
        by (simp add: processNext_def Let_def False split: prod.splits)
    qed
  qed
  have batch_all: "\<forall>r\<in>set (runs (runBatchLogic em s')). P r"
    if all': "\<forall>r\<in>set (runs s'). P r" for em s'
  proof (cases "isGlobalLoadingRef s' \<or> length (idle_indices (queueRef s')) = 0")
    case True
    then show ?thesis using all' by (auto simp: runBatchLogic_def Let_def)
  next
    case False
    let ?r0 = "\<lparr>run_engineMode = em, pendingIndices = idle_indices (queueRef s'),
                 CONCURRENCY_LIMIT = effective_limit (concurrency_limit s'),
                 activeCount = 0, nextPendingRefIndex = 0, completedCount = 0,
                 dispatched = [], inflight = [], resolved = False\<rparr>"
    let ?s2 = "s'\<lparr>isGlobalLoading := True,
                  stats := (0, length (idle_indices (queueRef s'))),
                  runs := runs s' @ [?r0]\<rparr>"
    have eq: "runBatchLogic em s' = processNext (length (runs s')) ?s2"
      using False by (simp add: runBatchLogic_def Let_def)
    have "\<forall>r\<in>set (runs ?s2). P r" using all' init [of em "queueRef s'"] by simp
    then show ?thesis unfolding eq by (intro next_all) simp_all
  qed
  have settle_all: "\<forall>r\<in>set (runs (upload_settled k j resp s)). P r" for k j resp
  proof (cases "k < length (runs s) \<and> j < length (inflight (runs s ! k))")
    case False
    have "upload_settled k j resp s = s"
      unfolding upload_settled_def by (simp only: False if_False)
    then show ?thesis using all by simp
  next
    case True
    let ?r = "runs s ! k"
    let ?r' = "?r\<lparr>inflight := take j (inflight ?r) @ drop (Suc j) (inflight ?r),
                  activeCount := activeCount ?r - 1,
                  completedCount := completedCount ?r + 1\<rparr>"
    let ?settled = "processItem_settle (fst (inflight ?r ! j)) resp (queue s)"
    let ?s1 = "s\<lparr>queue := fst ?settled,
                polls := polls s @ (case snd ?settled of None \<Rightarrow> [] | Some p \<Rightarrow> [p]),
                stats := (completedCount ?r', snd (stats s)),
                runs := (runs s)[k := ?r']\<rparr>"
    have eq: "upload_settled k j resp s = processNext k ?s1"
      using True by (simp add: upload_settled_def Let_def)
    have "P ?r" using True all by simp
    from settle [OF this] True have "P ?r'" by simp
    from upd [OF this all, of k] have "\<forall>r\<in>set (runs ?s1). P r" by simp
    then show ?thesis unfolding eq using True by (intro next_all) simp_all
  qed
  show ?thesis
  proof (cases e)
    case RunBatch
    then show ?thesis using batch_all [OF all] by simp
  next
    case TimerFired
    have "\<forall>r\<in>set (runs (s\<lparr>autoRunTimer := None\<rparr>)). P r" using all by simp
    from batch_all [OF this] TimerFired all show ?thesis
      by (auto simp: timer_fired_def split: option.splits)
  next
    case (UploadSettled k j resp)
    then show ?thesis using settle_all by simp
  qed (use all in \<open>auto simp: addFiles_def poll_fired_def removeFile_def
          clearAll_clicked_def clearAll_deleted_def fetchRecentReports_def commit_def Let_def\<close>)
qed

lemma runs_invariant:
  assumes init: "\<And>em q lim. P \<lparr>run_engineMode = em, pendingIndices = idle_indices q,
             CONCURRENCY_LIMIT = effective_limit lim, activeCount = 0, nextPendingRefIndex = 0,
             completedCount = 0, dispatched = [], inflight = [], resolved = False\<rparr>"
    and loop: "\<And>qref tref r q rq'. P r \<Longrightarrow> processNext_while qref tref (r, q) = rq' \<Longrightarrow> P (fst rq')"
    and settle: "\<And>r j. P r \<Longrightarrow> j < length (inflight r) \<Longrightarrow>
             P (r\<lparr>inflight := take j (inflight r) @ drop (Suc j) (inflight r),
                  activeCount := activeCount r - 1,
                  completedCount := completedCount r + 1\<rparr>)"
    and res: "\<And>r. P r \<Longrightarrow> length (pendingIndices r) \<le> nextPendingRefIndex r \<Longrightarrow>
             activeCount r = 0 \<Longrightarrow> P (r\<lparr>resolved := True\<rparr>)"
  shows "\<forall>r\<in>set (runs (run_events es (mounted t))). P r"
proof -
  have "\<forall>r\<in>set (runs s). P r \<Longrightarrow> \<forall>r\<in>set (runs (run_events es s)). P r" for s
    unfolding run_events_def
  proof (induction es arbitrary: s)
    case Nil
    then show ?case by simp
  next
    case (Cons e es)
    have "\<forall>r\<in>set (runs (handle e s)). P r"
      by (rule runs_invariant_step [of P, OF init loop settle res Cons.prems])
    from Cons.IH [OF this] show ?case by simp
  qed
  moreover have "\<forall>r\<in>set (runs (mounted t)). P r" by (simp add: mounted_def)
  ultimately show ?thesis by blast
qed

section \<open>The dispatch loop and the queue\<close>

lemma idle_indices_eq:
  "idle_indices q = filter (\<lambda>i. status (q ! i) = Idle) [0..<length q]"
proof -
  have "map (\<lambda>(item, index). (status item, index)) (zip q [0..<length q])
      = map (\<lambda>i. (status (q ! i), i)) [0..<length q]"
    by (rule nth_equalityI) simp_all
  then show ?thesis by (simp add: idle_indices_def filter_map comp_def)
qed

lemma distinct_idle_indices: "distinct (idle_indices q)"
  by (simp add: idle_indices_eq)

lemma set_idle_indices: "set (idle_indices q) = {i. i < length q \<and> status (q ! i) = Idle}"
  by (auto simp: idle_indices_eq)

text \<open>
  The snapshot of a run has no position twice, and the uploads in flight are for
  positions that the cursor has passed.
\<close>

definition run_hist :: "batch_run \<Rightarrow> bool" where
  "run_hist r \<longleftrightarrow>
     distinct (pendingIndices r)
     \<and> nextPendingRefIndex r \<le> length (pendingIndices r)
     \<and> fst ` set (inflight r) \<subseteq> set (take (nextPendingRefIndex r) (pendingIndices r))"

lemma processNext_while_run_hist:
  "processNext_while qref tref rq = rq' \<Longrightarrow> run_hist (fst rq) \<Longrightarrow> run_hist (fst rq')"
proof (induction qref tref rq arbitrary: rq' rule: processNext_while.induct)
  case (1 qref tref r q)
  show ?case
  proof (cases "activeCount r < CONCURRENCY_LIMIT r
      \<and> nextPendingRefIndex r < length (pendingIndices r)")
    case False
    with "1.prems" show ?thesis by (simp add: processNext_while.simps)
  next
    case True
    let ?i = "pendingIndices r ! nextPendingRefIndex r"
    have tk: "take (nextPendingRefIndex r + 1) (pendingIndices r)
        = take (nextPendingRefIndex r) (pendingIndices r) @ [?i]"
      using True by (simp add: take_Suc_conv_app_nth)
    show ?thesis
    proof (cases "\<not> ?i < length qref \<or> \<not> instanceof_File (item_file (qref ! ?i))")
      case skip: True
      from "1.prems"(1) True skip
      have "processNext_while qref tref (r\<lparr>nextPendingRefIndex := nextPendingRefIndex r + 1\<rparr>, q) = rq'"
        by (subst (asm) processNext_while.simps) (simp add: Let_def)
      moreover have "run_hist (fst (r\<lparr>nextPendingRefIndex := nextPendingRefIndex r + 1\<rparr>, q))"
        using "1.prems"(2) True tk by (auto simp: run_hist_def)
      ultimately show ?thesis using "1.IH"(1) [OF True refl skip] by simp
    next
      case launch: False
      let ?r = "r\<lparr>nextPendingRefIndex := nextPendingRefIndex r + 1,
                 activeCount := activeCount r + 1,
                 dispatched := dispatched r @ [(?i, item_file (qref ! ?i))],
                 inflight := inflight r
                   @ [(?i, upload_formData (run_engineMode r) tref (item_file (qref ! ?i)))]\<rparr>"
      from "1.prems"(1) True launch
      have "processNext_while qref tref
              (?r, patch_at ?i (\<lambda>it. it\<lparr>status := Uploading\<rparr>) q) = rq'"
        by (subst (asm) processNext_while.simps) (simp add: Let_def)
      moreover have "run_hist (fst (?r, patch_at ?i (\<lambda>it. it\<lparr>status := Uploading\<rparr>) q))"
        using "1.prems"(2) True tk by (auto simp: run_hist_def)
      ultimately show ?thesis using "1.IH"(2) [OF True refl launch] by simp
    qed
  qed
qed

lemma reachable_run_hist:
  "r \<in> set (runs (run_events es (mounted t))) \<Longrightarrow> run_hist r"
proof -
  have "\<forall>r\<in>set (runs (run_events es (mounted t))). run_hist r"
  proof (rule runs_invariant)
    fix em q lim
    show "run_hist \<lparr>run_engineMode = em, pendingIndices = idle_indices q,
             CONCURRENCY_LIMIT = effective_limit lim, activeCount = 0, nextPendingRefIndex = 0,
             completedCount = 0, dispatched = [], inflight = [], resolved = False\<rparr>"
      by (simp add: run_hist_def distinct_idle_indices)
  next
    fix qref tref r q rq'
    assume "run_hist r" "processNext_while qref tref (r, q) = rq'"
    then show "run_hist (fst rq')" using processNext_while_run_hist [of qref tref "(r, q)" rq'] by simp
  next
    fix r :: batch_run and j
    assume "run_hist r" "j < length (inflight r)"
    then show "run_hist (r\<lparr>inflight := take j (inflight r) @ drop (Suc j) (inflight r),
                  activeCount := activeCount r - 1,
                  completedCount := completedCount r + 1\<rparr>)"
      by (auto simp: run_hist_def dest!: in_set_takeD in_set_dropD)
  next
    fix r :: batch_run assume "run_hist r"
    then show "run_hist (r\<lparr>resolved := True\<rparr>)" by (simp add: run_hist_def)
  qed
  then show "r \<in> set (runs (run_events es (mounted t))) \<Longrightarrow> run_hist r" by blast
qed

lemma processNext_while_stop:
  assumes "\<not> (activeCount r < CONCURRENCY_LIMIT r \<and> nextPendingRefIndex r < length (pendingIndices r))"
  shows "processNext_while qref tref (r, q) = (r, q)"
  by (subst processNext_while.simps) (simp only: assms if_False simp_thms)

lemma processNext_while_skip:
  assumes "activeCount r < CONCURRENCY_LIMIT r \<and> nextPendingRefIndex r < length (pendingIndices r)"
    and "\<not> pendingIndices r ! nextPendingRefIndex r < length qref
     \<or> \<not> instanceof_File (item_file (qref ! (pendingIndices r ! nextPendingRefIndex r)))"
  shows "processNext_while qref tref (r, q)
       = processNext_while qref tref (r\<lparr>nextPendingRefIndex := nextPendingRefIndex r + 1\<rparr>, q)"
  by (subst processNext_while.simps) (simp only: assms if_True if_False Let_def simp_thms)

lemma processNext_while_launch:
  assumes "activeCount r < CONCURRENCY_LIMIT r \<and> nextPendingRefIndex r < length (pendingIndices r)"
    and "\<not> (\<not> pendingIndices r ! nextPendingRefIndex r < length qref
     \<or> \<not> instanceof_File (item_file (qref ! (pendingIndices r ! nextPendingRefIndex r))))"
  shows "processNext_while qref tref (r, q)
       = processNext_while qref tref
           (r\<lparr>nextPendingRefIndex := nextPendingRefIndex r + 1,
              activeCount := activeCount r + 1,
              dispatched := dispatched r
                @ [(pendingIndices r ! nextPendingRefIndex r,
                    item_file (qref ! (pendingIndices r ! nextPendingRefIndex r)))],
              inflight := inflight r
                @ [(pendingIndices r ! nextPendingRefIndex r,
                    upload_formData (run_engineMode r) tref
                      (item_file (qref ! (pendingIndices r ! nextPendingRefIndex r))))]\<rparr>,
            patch_at (pendingIndices r ! nextPendingRefIndex r) (\<lambda>it. it\<lparr>status := Uploading\<rparr>) q)"
  by (subst processNext_while.simps) (simp only: assms if_True if_False Let_def simp_thms)

lemma processNext_while_fst_indep:
  "fst (processNext_while qref tref (r, q1)) = fst (processNext_while qref tref (r, q2))"
proof (induction qref tref "(r, q1)" arbitrary: r q1 q2 rule: processNext_while.induct)
  case (1 qref tref r q)
  show ?case
  proof (cases "activeCount r < CONCURRENCY_LIMIT r
      \<and> nextPendingRefIndex r < length (pendingIndices r)")
    case False
    then show ?thesis by (simp add: processNext_while_stop)
  next
    case True
    let ?i = "pendingIndices r ! nextPendingRefIndex r"
    show ?thesis
    proof (cases "\<not> ?i < length qref \<or> \<not> instanceof_File (item_file (qref ! ?i))")
      case skip: True
      show ?thesis
        unfolding processNext_while_skip [OF True skip]
        by (rule "1.hyps"(1) [OF True refl skip])
    next
      case launch: False
      show ?thesis
        unfolding processNext_while_launch [OF True launch]
        by (rule "1.hyps"(2) [OF True refl launch])
    qed
  qed
qed

lemma processNext_while_exit:
  "processNext_while qref tref rq = rq' \<Longrightarrow>
     \<not> (activeCount (fst rq') < CONCURRENCY_LIMIT (fst rq')
        \<and> nextPendingRefIndex (fst rq') < length (pendingIndices (fst rq')))"
proof (induction qref tref rq arbitrary: rq' rule: processNext_while.induct)
  case (1 qref tref r q)
  show ?case
  proof (cases "activeCount r < CONCURRENCY_LIMIT r
      \<and> nextPendingRefIndex r < length (pendingIndices r)")
    case False
    with "1.prems" show ?thesis by (auto simp: processNext_while_stop)
  next
    case True
    let ?i = "pendingIndices r ! nextPendingRefIndex r"
    show ?thesis
    proof (cases "\<not> ?i < length qref \<or> \<not> instanceof_File (item_file (qref ! ?i))")
      case skip: True
      show ?thesis
        using "1.IH"(1) [OF True refl skip] "1.prems"
        unfolding processNext_while_skip [OF True skip] by blast
    next
      case launch: False
      show ?thesis
        using "1.IH"(2) [OF True refl launch] "1.prems"
        unfolding processNext_while_launch [OF True launch] by blast
    qed
  qed
qed

lemma processNext_while_queue:
  "processNext_while qref tref rq = rq' \<Longrightarrow> i < length (snd rq) \<Longrightarrow>
     error (snd rq' ! i) = error (snd rq ! i)
     \<and> item_file (snd rq' ! i) = item_file (snd rq ! i)
     \<and> jobId (snd rq' ! i) = jobId (snd rq ! i)
     \<and> resultUrl (snd rq' ! i) = resultUrl (snd rq ! i)
     \<and> (status (snd rq' ! i) = status (snd rq ! i) \<or> status (snd rq' ! i) = Uploading)
     \<and> (i \<notin> set (drop (nextPendingRefIndex (fst rq)) (pendingIndices (fst rq))) \<longrightarrow>
          snd rq' ! i = snd rq ! i)"
proof (induction qref tref rq arbitrary: rq' rule: processNext_while.induct)
  case (1 qref tref r q)
  show ?case
  proof (cases "activeCount r < CONCURRENCY_LIMIT r
      \<and> nextPendingRefIndex r < length (pendingIndices r)")
    case False
    with "1.prems" show ?thesis by (auto simp: processNext_while_stop)
  next
    case True
    let ?i = "pendingIndices r ! nextPendingRefIndex r"
    have dr: "drop (nextPendingRefIndex r) (pendingIndices r)
        = ?i # drop (nextPendingRefIndex r + 1) (pendingIndices r)"
      using True by (simp add: Cons_nth_drop_Suc)
    show ?thesis
    proof (cases "\<not> ?i < length qref \<or> \<not> instanceof_File (item_file (qref ! ?i))")
      case skip: True
      from "1.prems"(1) have "processNext_while qref tref
          (r\<lparr>nextPendingRefIndex := nextPendingRefIndex r + 1\<rparr>, q) = rq'"
        unfolding processNext_while_skip [OF True skip] .
      from "1.IH"(1) [OF True refl skip this] "1.prems"(2) dr show ?thesis by simp
    next
      case launch: False
      let ?q = "patch_at ?i (\<lambda>it. it\<lparr>status := Uploading\<rparr>) q"
      from "1.prems"(1) have "processNext_while qref tref
           (r\<lparr>nextPendingRefIndex := nextPendingRefIndex r + 1,
              activeCount := activeCount r + 1,
              dispatched := dispatched r @ [(?i, item_file (qref ! ?i))],
              inflight := inflight r
                @ [(?i, upload_formData (run_engineMode r) tref (item_file (qref ! ?i)))]\<rparr>,
            ?q) = rq'"
        unfolding processNext_while_launch [OF True launch] .
      from "1.IH"(2) [OF True refl launch this] "1.prems"(2) dr show ?thesis
        by (auto simp: nth_patch_at)
    qed
  qed
qed

text \<open>The test at the head of \<^verbatim>\<open>processNext\<close>.\<close>

definition run_finished :: "batch_run \<Rightarrow> bool" where
  "run_finished r \<longleftrightarrow>
     nextPendingRefIndex r \<ge> length (pendingIndices r) \<and> activeCount r = 0"

lemma processNext_fields:
  "runs (processNext k s) =
     (runs s)[k := (if run_finished (runs s ! k) then (runs s ! k)\<lparr>resolved := True\<rparr>
                    else fst (processNext_while (queueRef s) (textRef s) (runs s ! k, queue s)))]"
  "queue (processNext k s) =
     (if run_finished (runs s ! k) then queue s
      else snd (processNext_while (queueRef s) (textRef s) (runs s ! k, queue s)))"
  "isGlobalLoading (processNext k s) =
     (if run_finished (runs s ! k) then False else isGlobalLoading s)"
  "polls (processNext k s) = polls s"
  "queueRef (processNext k s) = queueRef s"
  "textRef (processNext k s) = textRef s"
  by (simp_all add: processNext_def run_finished_def Let_def split: prod.splits)

lemma upload_settled_unfold:
  assumes "k < length (runs s)" and "j < length (inflight (runs s ! k))"
  shows "upload_settled k j resp s =
     processNext k
       (s\<lparr>queue := fst (processItem_settle (fst (inflight (runs s ! k) ! j)) resp (queue s)),
          polls := polls s
            @ (case snd (processItem_settle (fst (inflight (runs s ! k) ! j)) resp (queue s)) of
                 None \<Rightarrow> [] | Some p \<Rightarrow> [p]),
          stats := (completedCount (runs s ! k) + 1, snd (stats s)),
          runs := (runs s)[k := (runs s ! k)
                    \<lparr>inflight := take j (inflight (runs s ! k)) @ drop (Suc j) (inflight (runs s ! k)),
                     activeCount := activeCount (runs s ! k) - 1,
                     completedCount := completedCount (runs s ! k) + 1\<rparr>]\<rparr>)"
  using assms by (simp add: upload_settled_def Let_def)

lemma processItem_settle_failure:
  "upload_error resp = Some message \<Longrightarrow>
     processItem_settle index resp q
       = (patch_at index (\<lambda>it. it\<lparr>status := Error, error := Some message\<rparr>) q, None)"
  by (cases resp) (simp_all add: processItem_settle_def)

section \<open>The auto-run flag and its timer\<close>






section \<open>What holds of every run of the component\<close>

text \<open>
  Each run for itself keeps its uploads in flight within its own limit, whatever the
  events and the renders in between.
\<close>

lemma reachable_run_ok:
  "r \<in> set (runs (run_events es (mounted t))) \<Longrightarrow> run_ok r"
proof -
  let ?P = "\<lambda>r. run_ok r \<and> (resolved r \<longrightarrow>
      length (pendingIndices r) \<le> nextPendingRefIndex r \<and> activeCount r = 0)"
  have "\<forall>r\<in>set (runs (run_events es (mounted t))). ?P r"
  proof (rule runs_invariant)
    fix em q lim
    show "?P \<lparr>run_engineMode = em, pendingIndices = idle_indices q,
             CONCURRENCY_LIMIT = effective_limit lim, activeCount = 0, nextPendingRefIndex = 0,
             completedCount = 0, dispatched = [], inflight = [], resolved = False\<rparr>"
      using effective_limit_pos [of lim] by (simp add: run_ok_def)
  next
    fix qref tref r q rq'
    assume p: "?P r" and w: "processNext_while qref tref (r, q) = rq'"
    show "?P (fst rq')"
    proof (cases "resolved r")
      case True
      then have "rq' = (r, q)" using p w by (simp add: processNext_while_stop)
      then show ?thesis using p by simp
    next
      case False
      have "run_ok (fst rq')" using processNext_while_run_ok [OF w] p False by simp
      moreover have "\<not> resolved (fst rq')" using processNext_while_keeps [OF w] False by simp
      ultimately show ?thesis by simp
    qed
  next
    fix r :: batch_run and j
    assume p: "?P r" and j: "j < length (inflight r)"
    then have "\<not> resolved r" by (auto simp: run_ok_def)
    then show "?P (r\<lparr>inflight := take j (inflight r) @ drop (Suc j) (inflight r),
                  activeCount := activeCount r - 1,
                  completedCount := completedCount r + 1\<rparr>)"
      using p j by (auto simp: run_ok_def)
  next
    fix r :: batch_run
    assume "?P r" "length (pendingIndices r) \<le> nextPendingRefIndex r" "activeCount r = 0"
    then show "?P (r\<lparr>resolved := True\<rparr>)" by (auto simp: run_ok_def)
  qed
  then show "r \<in> set (runs (run_events es (mounted t))) \<Longrightarrow> run_ok r" by blast
qed

text \<open>
  Every request of a run carries the \<^verbatim>\<open>engineMode\<close> that the run was started with, and an
  empty text when that mode is \<^verbatim>\<open>auto\<close>.
\<close>

definition requests_ok :: "batch_run \<Rightarrow> bool" where
  "requests_ok r \<longleftrightarrow>
     (\<forall>x\<in>set (inflight r). fd_mode (snd x) = run_engineMode r
        \<and> (fd_mode (snd x) = Auto \<longrightarrow> fd_text (snd x) = []))"

lemma processNext_while_requests_ok:
  "processNext_while qref tref rq = rq' \<Longrightarrow> requests_ok (fst rq) \<Longrightarrow> requests_ok (fst rq')"
proof (induction qref tref rq arbitrary: rq' rule: processNext_while.induct)
  case (1 qref tref r q)
  show ?case
  proof (cases "activeCount r < CONCURRENCY_LIMIT r
      \<and> nextPendingRefIndex r < length (pendingIndices r)")
    case False
    with "1.prems" show ?thesis by (simp add: processNext_while_stop)
  next
    case True
    let ?i = "pendingIndices r ! nextPendingRefIndex r"
    show ?thesis
    proof (cases "\<not> ?i < length qref \<or> \<not> instanceof_File (item_file (qref ! ?i))")
      case skip: True
      have "requests_ok (fst (r\<lparr>nextPendingRefIndex := nextPendingRefIndex r + 1\<rparr>, q))"
        using "1.prems"(2) by (simp add: requests_ok_def)
      then show ?thesis
        using "1.IH"(1) [OF True refl skip] "1.prems"(1)
        unfolding processNext_while_skip [OF True skip] by blast
    next
      case launch: False
      let ?r = "r\<lparr>nextPendingRefIndex := nextPendingRefIndex r + 1,
                 activeCount := activeCount r + 1,
                 dispatched := dispatched r @ [(?i, item_file (qref ! ?i))],
                 inflight := inflight r
                   @ [(?i, upload_formData (run_engineMode r) tref (item_file (qref ! ?i)))]\<rparr>"
      have "requests_ok (fst (?r, patch_at ?i (\<lambda>it. it\<lparr>status := Uploading\<rparr>) q))"
        using "1.prems"(2) by (auto simp: requests_ok_def upload_formData_def)
      then show ?thesis
        using "1.IH"(2) [OF True refl launch] "1.prems"(1)
        unfolding processNext_while_launch [OF True launch] by blast
    qed
  qed
qed

lemma reachable_requests_ok:
  "r \<in> set (runs (run_events es (mounted t))) \<Longrightarrow> requests_ok r"
proof -
  have "\<forall>r\<in>set (runs (run_events es (mounted t))). requests_ok r"
  proof (rule runs_invariant)
    fix em q lim
    show "requests_ok \<lparr>run_engineMode = em, pendingIndices = idle_indices q,
             CONCURRENCY_LIMIT = effective_limit lim, activeCount = 0, nextPendingRefIndex = 0,
             completedCount = 0, dispatched = [], inflight = [], resolved = False\<rparr>"
      by (simp add: requests_ok_def)
  next
    fix qref tref r q rq'
    assume "requests_ok r" "processNext_while qref tref (r, q) = rq'"
    then show "requests_ok (fst rq')"
      using processNext_while_requests_ok [of qref tref "(r, q)" rq'] by simp
  next
    fix r :: batch_run and j
    assume "requests_ok r" "j < length (inflight r)"
    then show "requests_ok (r\<lparr>inflight := take j (inflight r) @ drop (Suc j) (inflight r),
                  activeCount := activeCount r - 1,
                  completedCount := completedCount r + 1\<rparr>)"
      by (auto simp: requests_ok_def dest!: in_set_takeD in_set_dropD)
  next
    fix r :: batch_run assume "requests_ok r"
    then show "requests_ok (r\<lparr>resolved := True\<rparr>)" by (simp add: requests_ok_def)
  qed
  then show "r \<in> set (runs (run_events es (mounted t))) \<Longrightarrow> requests_ok r" by blast
qed

section \<open>What the handlers do to the queue\<close>

lemma nth_patch_at_any:
  "patch_at i f q ! j = (if j = i \<and> i < length q then f (q ! i) else q ! j)"
  by (simp add: patch_at_def)

lemma patch_at_set:
  "it \<in> set (patch_at y f q) \<Longrightarrow> it \<in> set q \<or> (y < length q \<and> it = f (q ! y))"
  using set_update_subset_insert [of q y "f (q ! y)"]
  by (auto simp: patch_at_def split: if_splits)

lemma poll_shape:
  "\<exists>f. fst (poll y resp q) = patch_at y f q
     \<and> item_file (f (q ! y)) = item_file (q ! y)
     \<and> (f (q ! y) = q ! y \<or> status (f (q ! y)) = Queued \<or> status (f (q ! y)) = Processing
          \<or> status (f (q ! y)) = Done \<or> status (f (q ! y)) = Error)
     \<and> (snd (poll y resp q) \<longrightarrow> status (f (q ! y)) = Queued \<or> status (f (q ! y)) = Processing)"
proof (cases "poll_error resp")
  case (Some message)
  then have "fst (poll y resp q) = patch_at y (\<lambda>it. it\<lparr>status := Error, error := Some message\<rparr>) q"
    and "\<not> snd (poll y resp q)" by (simp_all add: poll_def)
  then show ?thesis by (intro exI [of _ "\<lambda>it. it\<lparr>status := Error, error := Some message\<rparr>"]) simp
next
  case None
  then obtain jd where resp: "resp = PollOk jd" by (cases resp) simp_all
  show ?thesis
  proof (cases "job_status jd")
    case JobQueued
    then have "poll y resp q = (patch_at y (\<lambda>it. it\<lparr>status := Queued\<rparr>) q, True)"
      unfolding resp by (rule poll_in_progress)
    then show ?thesis by (intro exI [of _ "\<lambda>it. it\<lparr>status := Queued\<rparr>"]) simp
  next
    case JobProcessing
    then have "poll y resp q = (patch_at y (\<lambda>it. it\<lparr>status := Processing\<rparr>) q, True)"
      unfolding resp by (rule poll_in_progress)
    then show ?thesis by (intro exI [of _ "\<lambda>it. it\<lparr>status := Processing\<rparr>"]) simp
  next
    case JobCompleted
    then have "poll y resp q = (patch_at y (\<lambda>it. it\<lparr>status := Done,
        resultUrl := Some (''http://localhost:8000'' @ result_url jd)\<rparr>) q, False)"
      unfolding resp by (rule poll_completed)
    then show ?thesis
      by (intro exI [of _ "\<lambda>it. it\<lparr>status := Done,
        resultUrl := Some (''http://localhost:8000'' @ result_url jd)\<rparr>"]) simp
  next
    case JobFailed
    then show ?thesis using None resp by simp
  qed
qed

lemma processItem_settle_shape:
  "\<exists>g. fst (processItem_settle x resp q) = patch_at x g q
     \<and> item_file (g (q ! x)) = item_file (q ! x)
     \<and> ((snd (processItem_settle x resp q) = None \<and> status (g (q ! x)) = Error)
        \<or> (\<exists>job_id. snd (processItem_settle x resp q) = Some (x, job_id)
              \<and> status (g (q ! x)) = Queued))"
proof (cases resp)
  case (UploadOk job_id)
  then show ?thesis
    by (intro exI [of _ "\<lambda>it. it\<lparr>status := Queued, jobId := Some job_id\<rparr>"])
       (simp add: processItem_settle_def)
next
  case (UploadRejected detail)
  then show ?thesis
    by (intro exI [of _ "\<lambda>it. it\<lparr>status := Error, error := upload_error resp\<rparr>"])
       (simp add: processItem_settle_def)
next
  case (UploadThrew message)
  then show ?thesis
    by (intro exI [of _ "\<lambda>it. it\<lparr>status := Error, error := upload_error resp\<rparr>"])
       (simp add: processItem_settle_def)
qed

lemma nth_not_in_rest:
  assumes "distinct (map fst xs)" and "j < length xs"
  shows "fst (xs ! j) \<notin> fst ` set (take j xs @ drop (Suc j) xs)"
    and "distinct (map fst (take j xs @ drop (Suc j) xs))"
    and "set (take j xs @ drop (Suc j) xs) \<subseteq> set xs"
proof -
  have split: "xs = take j xs @ (xs ! j) # drop (Suc j) xs"
    using assms(2) by (simp add: id_take_nth_drop)
  have d: "distinct (map fst (take j xs) @ fst (xs ! j) # map fst (drop (Suc j) xs))"
    using assms(1) by (subst (asm) split) simp
  then show "fst (xs ! j) \<notin> fst ` set (take j xs @ drop (Suc j) xs)" by auto
  from d show "distinct (map fst (take j xs @ drop (Suc j) xs))" by simp
  show "set (take j xs @ drop (Suc j) xs) \<subseteq> set xs"
    by (auto dest: in_set_takeD in_set_dropD)
qed

lemma addFiles_loop_new:
  "\<forall>it\<in>set acc. status it = Idle \<and> instanceof_File (item_file it) \<Longrightarrow>
   \<forall>it\<in>set (addFiles_loop H prev acc fs). status it = Idle \<and> instanceof_File (item_file it)"
proof (induction fs arbitrary: acc)
  case Nil
  then show ?case by simp
next
  case (Cons f fs)
  let ?it = "\<lparr>item_file = File (getUniqueFileName H (fst f) (prev @ acc)) (snd f),
              status = Idle, jobId = None, resultUrl = None, error = None\<rparr>"
  have "\<forall>it\<in>set (acc @ [?it]). status it = Idle \<and> instanceof_File (item_file it)"
    using Cons.prems by simp
  from Cons.IH [OF this] show ?case by (simp add: Let_def)
qed

text \<open>
  The events that leave every row at its position: all but \<^verbatim>\<open>removeFile\<close>, \<^verbatim>\<open>Clear All\<close>
  and a report list that replaces the queue.
\<close>

fun keeps_rows :: "event \<Rightarrow> bool" where
  "keeps_rows (RemoveFile index) = False"
| "keeps_rows ClearAll = False"
| "keeps_rows ClearAllDeleted = False"
| "keeps_rows (ReportsLoaded wasEmpty data) = (\<not> wasEmpty)"
| "keeps_rows e = True"

text \<open>
  The queue \<open>q'\<close> still has every row of \<open>q\<close> at its position, with its file.
\<close>

definition files_kept :: "QueueItem list \<Rightarrow> QueueItem list \<Rightarrow> bool" where
  "files_kept q q' \<longleftrightarrow>
     length q \<le> length q' \<and> (\<forall>i<length q. item_file (q' ! i) = item_file (q ! i))"

lemma files_kept_refl: "files_kept q q"
  by (simp add: files_kept_def)

lemma files_kept_trans: "files_kept a b \<Longrightarrow> files_kept b c \<Longrightarrow> files_kept a c"
  by (auto simp: files_kept_def)

lemma files_kept_patch:
  assumes "item_file (f (q ! y)) = item_file (q ! y)"
  shows "files_kept q (patch_at y f q)"
  using assms by (simp add: files_kept_def nth_patch_at_any)

lemma files_kept_append: "files_kept q (q @ new)"
  by (simp add: files_kept_def nth_append)

lemma processNext_while_files_kept:
  "processNext_while qref tref rq = rq' \<Longrightarrow> files_kept (snd rq) (snd rq')"
  using processNext_while_keeps [of qref tref rq rq']
    processNext_while_queue [of qref tref rq rq']
  by (simp add: files_kept_def)

lemma processNext_files_kept: "files_kept (queue s) (queue (processNext k s))"
  using processNext_while_files_kept [of "queueRef s" "textRef s" "(runs s ! k, queue s)", OF refl]
  by (simp add: processNext_fields files_kept_refl)

lemma runBatchLogic_files_kept: "files_kept (queue s) (queue (runBatchLogic em s))"
proof (cases "isGlobalLoadingRef s \<or> length (idle_indices (queueRef s)) = 0")
  case True
  then have "queue (runBatchLogic em s) = queue s"
    by (cases "isGlobalLoadingRef s") (simp_all add: runBatchLogic_def Let_def)
  then show ?thesis by (simp add: files_kept_refl)
next
  case False
  let ?s2 = "s\<lparr>isGlobalLoading := True,
                stats := (0, length (idle_indices (queueRef s))),
                runs := runs s
                  @ [\<lparr>run_engineMode = em, pendingIndices = idle_indices (queueRef s),
                       CONCURRENCY_LIMIT = effective_limit (concurrency_limit s),
                       activeCount = 0, nextPendingRefIndex = 0, completedCount = 0,
                       dispatched = [], inflight = [], resolved = False\<rparr>]\<rparr>"
  have "runBatchLogic em s = processNext (length (runs s)) ?s2"
    using False by (simp add: runBatchLogic_def Let_def)
  then show ?thesis using processNext_files_kept [of ?s2 "length (runs s)"] by simp
qed

lemma upload_settled_files_kept: "files_kept (queue s) (queue (upload_settled k j resp s))"
proof (cases "k < length (runs s) \<and> j < length (inflight (runs s ! k))")
  case False
  have "upload_settled k j resp s = s"
    unfolding upload_settled_def by (simp only: False if_False)
  then show ?thesis by (simp add: files_kept_refl)
next
  case True
  then have k: "k < length (runs s)" and j: "j < length (inflight (runs s ! k))" by simp_all
  let ?x = "fst (inflight (runs s ! k) ! j)"
  obtain g where g: "fst (processItem_settle ?x resp (queue s)) = patch_at ?x g (queue s)"
      "item_file (g (queue s ! ?x)) = item_file (queue s ! ?x)"
    using processItem_settle_shape [of ?x resp "queue s"] by blast
  let ?s1 = "s\<lparr>queue := patch_at ?x g (queue s),
          polls := polls s
            @ (case snd (processItem_settle ?x resp (queue s)) of None \<Rightarrow> [] | Some p \<Rightarrow> [p]),
          stats := (completedCount (runs s ! k) + 1, snd (stats s)),
          runs := (runs s)[k := (runs s ! k)
                    \<lparr>inflight := take j (inflight (runs s ! k)) @ drop (Suc j) (inflight (runs s ! k)),
                     activeCount := activeCount (runs s ! k) - 1,
                     completedCount := completedCount (runs s ! k) + 1\<rparr>]\<rparr>"
  have eq: "upload_settled k j resp s = processNext k ?s1"
    unfolding upload_settled_unfold [OF k j] g(1) by simp
  have "files_kept (queue s) (queue ?s1)"
    using files_kept_patch [of g "queue s" ?x] g(2) by simp
  then show ?thesis
    unfolding eq using processNext_files_kept [of ?s1 k] files_kept_trans by blast
qed

lemma poll_fired_files_kept: "files_kept (queue s) (queue (poll_fired p resp s))"
proof (cases "p < length (polls s)")
  case False
  then show ?thesis by (simp add: poll_fired_def files_kept_refl)
next
  case True
  let ?y = "fst (polls s ! p)"
  obtain f where f: "fst (poll ?y resp (queue s)) = patch_at ?y f (queue s)"
      "item_file (f (queue s ! ?y)) = item_file (queue s ! ?y)"
    using poll_shape [of ?y resp "queue s"] by blast
  have "queue (poll_fired p resp s) = patch_at ?y f (queue s)"
    using True f(1) by (simp add: poll_fired_def Let_def)
  then show ?thesis using files_kept_patch [of f "queue s" ?y] f(2) by simp
qed

lemma handle_files_kept:
  assumes "keeps_rows e"
  shows "files_kept (queue s) (queue (handle e s))"
proof (cases e)
  case (AddFiles fs)
  then show ?thesis
    by (simp add: addFiles_def addFiles_queue_def files_kept_append files_kept_refl)
next
  case RunBatch
  then show ?thesis by (simp add: runBatchLogic_files_kept)
next
  case TimerFired
  show ?thesis
  proof (cases "autoRunTimer s")
    case None
    then show ?thesis using TimerFired by (simp add: timer_fired_def files_kept_refl)
  next
    case (Some em)
    then show ?thesis
      using TimerFired runBatchLogic_files_kept [of "s\<lparr>autoRunTimer := None\<rparr>" em]
      by (simp add: timer_fired_def)
  qed
next
  case (UploadSettled k j resp)
  then show ?thesis by (simp add: upload_settled_files_kept)
next
  case (PollFired p resp)
  then show ?thesis by (simp add: poll_fired_files_kept)
next
  case (ReportsLoaded wasEmpty data)
  then show ?thesis using assms by (simp add: fetchRecentReports_def Let_def files_kept_refl)
next
  case Render
  then show ?thesis by (simp add: commit_def Let_def files_kept_refl)
qed (use assms in \<open>simp_all add: files_kept_refl\<close>)

lemma run_events_files_kept:
  assumes "\<forall>e\<in>set es. keeps_rows e"
  shows "files_kept (queue s) (queue (run_events es s))"
  using assms unfolding run_events_def
proof (induction es arbitrary: s)
  case Nil
  then show ?case by (simp add: files_kept_refl)
next
  case (Cons e es)
  have "files_kept (queue s) (queue (handle e s))"
    by (rule handle_files_kept) (use Cons.prems in simp)
  moreover have "files_kept (queue (handle e s)) (queue (fold handle es (handle e s)))"
    by (rule Cons.IH) (use Cons.prems in simp)
  ultimately show ?case using files_kept_trans by auto
qed

text \<open>
  The refs change by a render only, and a run is changed only when one of its own
  uploads ends.
\<close>

lemma handle_queueRef: "queueRef (handle e s) = (if e = Render then queue s else queueRef s)"
  by (cases e)
     (auto simp: addFiles_def runBatchLogic_frame timer_fired_def upload_settled_frame
        poll_fired_def removeFile_def clearAll_clicked_def clearAll_deleted_def
        fetchRecentReports_def commit_def Let_def split: option.splits)

lemma handle_isGlobalLoadingRef:
  "isGlobalLoadingRef (handle e s) = (if e = Render then isGlobalLoading s else isGlobalLoadingRef s)"
  by (cases e)
     (auto simp: addFiles_def runBatchLogic_frame timer_fired_def upload_settled_frame
        poll_fired_def removeFile_def clearAll_clicked_def clearAll_deleted_def
        fetchRecentReports_def commit_def Let_def split: option.splits)

lemma processNext_other_run:
  "k \<noteq> k' \<Longrightarrow> runs (processNext k' s) ! k = runs s ! k"
  by (simp add: processNext_fields)

lemma runBatchLogic_other_run:
  assumes "k < length (runs s)"
  shows "k < length (runs (runBatchLogic em s)) \<and> runs (runBatchLogic em s) ! k = runs s ! k"
proof (cases "isGlobalLoadingRef s \<or> length (idle_indices (queueRef s)) = 0")
  case True
  then have "runs (runBatchLogic em s) = runs s"
    by (cases "isGlobalLoadingRef s") (simp_all add: runBatchLogic_def Let_def)
  then show ?thesis using assms by simp
next
  case False
  let ?s2 = "s\<lparr>isGlobalLoading := True,
                stats := (0, length (idle_indices (queueRef s))),
                runs := runs s
                  @ [\<lparr>run_engineMode = em, pendingIndices = idle_indices (queueRef s),
                       CONCURRENCY_LIMIT = effective_limit (concurrency_limit s),
                       activeCount = 0, nextPendingRefIndex = 0, completedCount = 0,
                       dispatched = [], inflight = [], resolved = False\<rparr>]\<rparr>"
  have eq: "runBatchLogic em s = processNext (length (runs s)) ?s2"
    using False by (simp add: runBatchLogic_def Let_def)
  have "runs (processNext (length (runs s)) ?s2) ! k = runs ?s2 ! k"
    by (rule processNext_other_run) (use assms in simp)
  then show ?thesis unfolding eq using assms by (simp add: processNext_frame nth_append)
qed

lemma upload_settled_other_run:
  assumes "k \<noteq> k'"
  shows "runs (upload_settled k' j resp s) ! k = runs s ! k"
proof (cases "k' < length (runs s) \<and> j < length (inflight (runs s ! k'))")
  case False
  have "upload_settled k' j resp s = s"
    unfolding upload_settled_def by (simp only: False if_False)
  then show ?thesis by simp
next
  case True
  then have k: "k' < length (runs s)" and j: "j < length (inflight (runs s ! k'))" by simp_all
  show ?thesis
    unfolding upload_settled_unfold [OF k j]
    using assms by (simp add: processNext_fields)
qed

lemma handle_other_run:
  assumes "k < length (runs s)" and "\<forall>j resp. e \<noteq> UploadSettled k j resp"
  shows "k < length (runs (handle e s)) \<and> runs (handle e s) ! k = runs s ! k"
proof (cases e)
  case RunBatch
  then show ?thesis using runBatchLogic_other_run [OF assms(1)] by simp
next
  case TimerFired
  show ?thesis
  proof (cases "autoRunTimer s")
    case None
    then show ?thesis using TimerFired assms(1) by (simp add: timer_fired_def)
  next
    case (Some em)
    have "k < length (runs (s\<lparr>autoRunTimer := None\<rparr>))" using assms(1) by simp
    from runBatchLogic_other_run [OF this, of em] show ?thesis
      using TimerFired Some by (simp add: timer_fired_def)
  qed
next
  case (UploadSettled k' j resp)
  then have "k \<noteq> k'" using assms(2) by auto
  then show ?thesis
    using UploadSettled assms(1) upload_settled_other_run [of k k' j resp s]
    by (simp add: upload_settled_frame)
next
  case Render
  then show ?thesis using assms(1) by (simp add: commit_def Let_def)
qed (use assms(1) in \<open>auto simp: addFiles_def poll_fired_def removeFile_def clearAll_clicked_def
       clearAll_deleted_def fetchRecentReports_def Let_def\<close>)

text \<open>
  Rows become \<^verbatim>\<open>idle\<close> only by being appended, and appended rows hold a \<^verbatim>\<open>File\<close>: whatever the
  events, an \<^verbatim>\<open>idle\<close> row holds a \<^verbatim>\<open>File\<close>, in the queue and in \<^verbatim>\<open>queueRef.current\<close>.
\<close>

lemma processNext_while_idle_rows:
  "processNext_while qref tref rq = rq' \<Longrightarrow> it \<in> set (snd rq') \<Longrightarrow> status it = Idle \<Longrightarrow>
     it \<in> set (snd rq)"
proof (induction qref tref rq arbitrary: rq' rule: processNext_while.induct)
  case (1 qref tref r q)
  show ?case
  proof (cases "activeCount r < CONCURRENCY_LIMIT r
      \<and> nextPendingRefIndex r < length (pendingIndices r)")
    case False
    then show ?thesis using "1.prems" by (auto simp: processNext_while_stop)
  next
    case True
    let ?i = "pendingIndices r ! nextPendingRefIndex r"
    show ?thesis
    proof (cases "\<not> ?i < length qref \<or> \<not> instanceof_File (item_file (qref ! ?i))")
      case skip: True
      from "1.prems"(1) have "processNext_while qref tref
          (r\<lparr>nextPendingRefIndex := nextPendingRefIndex r + 1\<rparr>, q) = rq'"
        unfolding processNext_while_skip [OF True skip] .
      from "1.IH"(1) [OF True refl skip this "1.prems"(2,3)] show ?thesis by simp
    next
      case launch: False
      let ?q = "patch_at ?i (\<lambda>it. it\<lparr>status := Uploading\<rparr>) q"
      from "1.prems"(1) have "processNext_while qref tref
           (r\<lparr>nextPendingRefIndex := nextPendingRefIndex r + 1,
              activeCount := activeCount r + 1,
              dispatched := dispatched r @ [(?i, item_file (qref ! ?i))],
              inflight := inflight r
                @ [(?i, upload_formData (run_engineMode r) tref (item_file (qref ! ?i)))]\<rparr>,
            ?q) = rq'"
        unfolding processNext_while_launch [OF True launch] .
      from "1.IH"(2) [OF True refl launch this "1.prems"(2,3)]
      have "it \<in> set ?q" by simp
      then show ?thesis
        using patch_at_set [of it ?i "\<lambda>it. it\<lparr>status := Uploading\<rparr>" q] "1.prems"(3) by auto
    qed
  qed
qed

lemma processNext_idle_rows:
  assumes "it \<in> set (queue (processNext k s))" and "status it = Idle"
  shows "it \<in> set (queue s)"
proof (cases "run_finished (runs s ! k)")
  case True
  then show ?thesis using assms by (simp add: processNext_fields)
next
  case False
  then have "it \<in> set (snd (processNext_while (queueRef s) (textRef s) (runs s ! k, queue s)))"
    using assms(1) by (simp add: processNext_fields)
  from processNext_while_idle_rows [OF refl this assms(2)] show ?thesis by simp
qed

lemma runBatchLogic_idle_rows:
  assumes "it \<in> set (queue (runBatchLogic em s))" and "status it = Idle"
  shows "it \<in> set (queue s)"
proof (cases "isGlobalLoadingRef s \<or> length (idle_indices (queueRef s)) = 0")
  case True
  then have "queue (runBatchLogic em s) = queue s"
    by (cases "isGlobalLoadingRef s") (simp_all add: runBatchLogic_def Let_def)
  then show ?thesis using assms by simp
next
  case False
  let ?s2 = "s\<lparr>isGlobalLoading := True,
                stats := (0, length (idle_indices (queueRef s))),
                runs := runs s
                  @ [\<lparr>run_engineMode = em, pendingIndices = idle_indices (queueRef s),
                       CONCURRENCY_LIMIT = effective_limit (concurrency_limit s),
                       activeCount = 0, nextPendingRefIndex = 0, completedCount = 0,
                       dispatched = [], inflight = [], resolved = False\<rparr>]\<rparr>"
  have "runBatchLogic em s = processNext (length (runs s)) ?s2"
    using False by (simp add: runBatchLogic_def Let_def)
  then have "it \<in> set (queue (processNext (length (runs s)) ?s2))" using assms(1) by simp
  from processNext_idle_rows [OF this assms(2)] show ?thesis by simp
qed

lemma upload_settled_idle_rows:
  assumes "it \<in> set (queue (upload_settled k j resp s))" and "status it = Idle"
  shows "it \<in> set (queue s)"
proof (cases "k < length (runs s) \<and> j < length (inflight (runs s ! k))")
  case False
  have "upload_settled k j resp s = s"
    unfolding upload_settled_def by (simp only: False if_False)
  then show ?thesis using assms by simp
next
  case True
  then have k: "k < length (runs s)" and j: "j < length (inflight (runs s ! k))" by simp_all
  let ?x = "fst (inflight (runs s ! k) ! j)"
  obtain g where g: "fst (processItem_settle ?x resp (queue s)) = patch_at ?x g (queue s)"
      "status (g (queue s ! ?x)) = Error \<or> status (g (queue s ! ?x)) = Queued"
    using processItem_settle_shape [of ?x resp "queue s"] by blast
  let ?s1 = "s\<lparr>queue := patch_at ?x g (queue s),
          polls := polls s
            @ (case snd (processItem_settle ?x resp (queue s)) of None \<Rightarrow> [] | Some p \<Rightarrow> [p]),
          stats := (completedCount (runs s ! k) + 1, snd (stats s)),
          runs := (runs s)[k := (runs s ! k)
                    \<lparr>inflight := take j (inflight (runs s ! k)) @ drop (Suc j) (inflight (runs s ! k)),
                     activeCount := activeCount (runs s ! k) - 1,
                     completedCount := completedCount (runs s ! k) + 1\<rparr>]\<rparr>"
  have "upload_settled k j resp s = processNext k ?s1"
    unfolding upload_settled_unfold [OF k j] g(1) by simp
  then have "it \<in> set (queue (processNext k ?s1))" using assms(1) by simp
  from processNext_idle_rows [OF this assms(2)]
  have "it \<in> set (patch_at ?x g (queue s))" by simp
  then show ?thesis using patch_at_set [of it ?x g "queue s"] g(2) assms(2) by auto
qed

lemma poll_fired_idle_rows:
  assumes "it \<in> set (queue (poll_fired p resp s))" and "status it = Idle"
  shows "it \<in> set (queue s)"
proof (cases "p < length (polls s)")
  case False
  then show ?thesis using assms by (simp add: poll_fired_def)
next
  case True
  let ?y = "fst (polls s ! p)"
  obtain f where f: "fst (poll ?y resp (queue s)) = patch_at ?y f (queue s)"
      "f (queue s ! ?y) = queue s ! ?y \<or> status (f (queue s ! ?y)) = Queued
         \<or> status (f (queue s ! ?y)) = Processing
         \<or> status (f (queue s ! ?y)) = Done \<or> status (f (queue s ! ?y)) = Error"
    using poll_shape [of ?y resp "queue s"] by blast
  have "it \<in> set (patch_at ?y f (queue s))"
    using assms(1) True f(1) by (simp add: poll_fired_def Let_def)
  then show ?thesis using patch_at_set [of it ?y f "queue s"] f(2) assms(2) by auto
qed

lemma handle_idle_rows:
  assumes "\<forall>fs. e \<noteq> AddFiles fs" and "it \<in> set (queue (handle e s))" and "status it = Idle"
  shows "it \<in> set (queue s)"
proof (cases e)
  case (AddFiles fs)
  then show ?thesis using assms(1) by simp
next
  case RunBatch
  then show ?thesis using assms runBatchLogic_idle_rows by simp
next
  case TimerFired
  show ?thesis
  proof (cases "autoRunTimer s")
    case None
    then show ?thesis using TimerFired assms by (simp add: timer_fired_def)
  next
    case (Some em)
    then have "it \<in> set (queue (runBatchLogic em (s\<lparr>autoRunTimer := None\<rparr>)))"
      using TimerFired assms(2) by (simp add: timer_fired_def)
    from runBatchLogic_idle_rows [OF this assms(3)] show ?thesis by simp
  qed
next
  case (UploadSettled k j resp)
  then show ?thesis using assms upload_settled_idle_rows by simp
next
  case (PollFired p resp)
  then show ?thesis using assms poll_fired_idle_rows by simp
next
  case (RemoveFile index)
  then show ?thesis using assms
    by (auto simp: removeFile_def split: if_splits dest: in_set_takeD in_set_dropD)
next
  case ClearAll
  then show ?thesis using assms by (auto simp: clearAll_clicked_def Let_def split: if_splits)
next
  case ClearAllDeleted
  then show ?thesis using assms by (auto simp: clearAll_deleted_def split: if_splits)
next
  case Render
  then show ?thesis using assms(2) by (auto simp: commit_def Let_def split: if_splits)
next
  case (SetText t)
  then show ?thesis using assms by simp
next
  case (SetEngineMode m)
  then show ?thesis using assms by simp
next
  case (SetConcurrency v)
  then show ?thesis using assms by simp
next
  case (ReportsLoaded wasEmpty data)
  then show ?thesis using assms
    by (auto simp: fetchRecentReports_def Let_def split: if_splits)
qed

definition idle_files :: "QueueItem list \<Rightarrow> bool" where
  "idle_files q \<longleftrightarrow> (\<forall>it\<in>set q. status it = Idle \<longrightarrow> instanceof_File (item_file it))"

lemma handle_idle_files:
  assumes "idle_files (queue s)"
  shows "idle_files (queue (handle e s))"
proof (cases "\<forall>fs. e \<noteq> AddFiles fs")
  case True
  show ?thesis unfolding idle_files_def
  proof (intro ballI impI)
    fix it assume "it \<in> set (queue (handle e s))" "status it = Idle"
    from handle_idle_rows [OF True this] show "instanceof_File (item_file it)"
      using assms \<open>status it = Idle\<close> by (simp add: idle_files_def)
  qed
next
  case False
  then obtain fs where e: "e = AddFiles fs" by blast
  have new: "\<forall>it\<in>set (addFiles_loop (renderedNames s) (queue s) [] fs).
      status it = Idle \<and> instanceof_File (item_file it)"
    by (rule addFiles_loop_new) simp
  show ?thesis
    using assms new unfolding e idle_files_def
    by (auto simp: addFiles_def addFiles_queue_def)
qed

lemma reachable_idle_files:
  "idle_files (queue (run_events es (mounted t))) \<and> idle_files (queueRef (run_events es (mounted t)))"
proof -
  have "idle_files (queue s) \<and> idle_files (queueRef s) \<Longrightarrow>
      idle_files (queue (run_events es s)) \<and> idle_files (queueRef (run_events es s))" for s
    unfolding run_events_def
  proof (induction es arbitrary: s)
    case Nil
    then show ?case by simp
  next
    case (Cons e es)
    have "idle_files (queue (handle e s))" by (rule handle_idle_files) (use Cons.prems in simp)
    moreover have "idle_files (queueRef (handle e s))"
      using Cons.prems by (simp add: handle_queueRef)
    ultimately show ?case using Cons.IH [of "handle e s"] by simp
  qed
  moreover have "idle_files (queue (mounted t)) \<and> idle_files (queueRef (mounted t))"
    by (simp add: idle_files_def mounted_def)
  ultimately show ?thesis by blast
qed

section \<open>A run and its snapshot\<close>

text \<open>
  How a run stands to the queue \<open>q0\<close> that its snapshot was taken from: the snapshot is
  the list of the \<^verbatim>\<open>idle\<close> positions of \<open>q0\<close>, the calls of \<^verbatim>\<open>processItem\<close> made so far are
  those for the snapshot up to the cursor, in order, each with the file of its row,
  and every call made has either ended or is in flight.
\<close>

definition snap_core :: "QueueItem list \<Rightarrow> batch_run \<Rightarrow> bool" where
  "snap_core q0 r \<longleftrightarrow>
     pendingIndices r = idle_indices q0
     \<and> nextPendingRefIndex r \<le> length (pendingIndices r)
     \<and> dispatched r
         = map (\<lambda>i. (i, item_file (q0 ! i))) (take (nextPendingRefIndex r) (pendingIndices r))
     \<and> completedCount r + length (inflight r) = nextPendingRefIndex r
     \<and> activeCount r = int (length (inflight r))
     \<and> 1 \<le> CONCURRENCY_LIMIT r"

text \<open>
  A resolved run has gone through its whole snapshot and has nothing in flight; a run
  that is not resolved has an upload in flight, whose end will call \<^verbatim>\<open>processNext\<close> again.
\<close>

definition snapshot_run :: "QueueItem list \<Rightarrow> batch_run \<Rightarrow> bool" where
  "snapshot_run q0 r \<longleftrightarrow>
     snap_core q0 r
     \<and> (if resolved r then nextPendingRefIndex r = length (pendingIndices r) \<and> inflight r = []
         else inflight r \<noteq> [])"

lemma processNext_while_snap:
  assumes "processNext_while qref tref rq = rq'"
    and "snap_core q0 (fst rq)"
    and "\<forall>i\<in>set (idle_indices q0). i < length qref \<and> instanceof_File (item_file (qref ! i))
           \<and> item_file (qref ! i) = item_file (q0 ! i)"
  shows "snap_core q0 (fst rq')
    \<and> (inflight (fst rq) \<noteq> [] \<longrightarrow> inflight (fst rq') \<noteq> [])
    \<and> (activeCount (fst rq) < CONCURRENCY_LIMIT (fst rq)
        \<and> nextPendingRefIndex (fst rq) < length (pendingIndices (fst rq))
        \<longrightarrow> inflight (fst rq') \<noteq> [])"
  using assms
proof (induction qref tref rq arbitrary: rq' rule: processNext_while.induct)
  case (1 qref tref r q)
  note prems = "1.prems"
  show ?case
  proof (cases "activeCount r < CONCURRENCY_LIMIT r
      \<and> nextPendingRefIndex r < length (pendingIndices r)")
    case False
    then have "rq' = (r, q)" using prems(1) by (simp add: processNext_while_stop)
    then show ?thesis using prems(2) False by auto
  next
    case True
    let ?n = "nextPendingRefIndex r"
    let ?i = "pendingIndices r ! ?n"
    have sc: "snap_core q0 r" using prems(2) by simp
    have mem: "?i \<in> set (idle_indices q0)" using True sc by (simp add: snap_core_def)
    then have ok: "?i < length qref" "instanceof_File (item_file (qref ! ?i))"
        "item_file (qref ! ?i) = item_file (q0 ! ?i)"
      using prems(3) by blast+
    have launch: "\<not> (\<not> ?i < length qref \<or> \<not> instanceof_File (item_file (qref ! ?i)))"
      using ok by simp
    let ?q = "patch_at ?i (\<lambda>it. it\<lparr>status := Uploading\<rparr>) q"
    let ?r = "r\<lparr>nextPendingRefIndex := ?n + 1,
              activeCount := activeCount r + 1,
              dispatched := dispatched r @ [(?i, item_file (qref ! ?i))],
              inflight := inflight r
                @ [(?i, upload_formData (run_engineMode r) tref (item_file (qref ! ?i)))]\<rparr>"
    have eq: "processNext_while qref tref (?r, ?q) = rq'"
      using prems(1) unfolding processNext_while_launch [OF True launch] .
    have tk: "take (?n + 1) (pendingIndices r) = take ?n (pendingIndices r) @ [?i]"
      using True by (simp add: take_Suc_conv_app_nth)
    have sc': "snap_core q0 (fst (?r, ?q))"
      using sc True tk ok(3) by (simp add: snap_core_def)
    have ih: "snap_core q0 (fst rq')
        \<and> (inflight (fst (?r, ?q)) \<noteq> [] \<longrightarrow> inflight (fst rq') \<noteq> [])"
      using "1.IH"(2) [OF True refl launch eq sc' prems(3)] by blast
    then show ?thesis by simp
  qed
qed

lemma snapshot_qref:
  assumes "idle_files q0" and "files_kept q0 qref"
  shows "\<forall>i\<in>set (idle_indices q0). i < length qref \<and> instanceof_File (item_file (qref ! i))
           \<and> item_file (qref ! i) = item_file (q0 ! i)"
proof
  fix i assume "i \<in> set (idle_indices q0)"
  then have i: "i < length q0" "status (q0 ! i) = Idle" by (simp_all add: set_idle_indices)
  then have "instanceof_File (item_file (q0 ! i))"
    using assms(1) nth_mem [of i q0] by (simp add: idle_files_def)
  then show "i < length qref \<and> instanceof_File (item_file (qref ! i))
           \<and> item_file (qref ! i) = item_file (q0 ! i)"
    using assms(2) i(1) by (simp add: files_kept_def)
qed

lemma processNext_snap:
  assumes k: "k < length (runs s)"
    and sc: "snap_core q0 (runs s ! k)" and unres: "\<not> resolved (runs s ! k)"
    and q0: "idle_files q0" "files_kept q0 (queueRef s)"
  shows "snapshot_run q0 (runs (processNext k s) ! k)"
proof (cases "run_finished (runs s ! k)")
  case True
  then have "runs (processNext k s) ! k = (runs s ! k)\<lparr>resolved := True\<rparr>"
    using k by (simp add: processNext_fields)
  moreover have "snapshot_run q0 ((runs s ! k)\<lparr>resolved := True\<rparr>)"
  proof -
    have le: "nextPendingRefIndex (runs s ! k) \<le> length (pendingIndices (runs s ! k))"
      and ac: "activeCount (runs s ! k) = int (length (inflight (runs s ! k)))"
      using sc unfolding snap_core_def by blast+
    have "nextPendingRefIndex (runs s ! k) = length (pendingIndices (runs s ! k))"
      using le True by (simp add: run_finished_def)
    moreover have "inflight (runs s ! k) = []" using ac True by (simp add: run_finished_def)
    moreover have "snap_core q0 ((runs s ! k)\<lparr>resolved := True\<rparr>)"
      using sc by (auto simp: snap_core_def)
    ultimately show ?thesis by (simp add: snapshot_run_def)
  qed
  ultimately show ?thesis by simp
next
  case False
  let ?r = "runs s ! k"
  obtain r' q' where w: "processNext_while (queueRef s) (textRef s) (?r, queue s) = (r', q')"
    by (cases "processNext_while (queueRef s) (textRef s) (?r, queue s)")
  have rk: "runs (processNext k s) ! k = r'"
    using k False w by (simp add: processNext_fields)
  have l: "snap_core q0 (fst (r', q'))
    \<and> (inflight (fst (?r, queue s)) \<noteq> [] \<longrightarrow> inflight (fst (r', q')) \<noteq> [])
    \<and> (activeCount (fst (?r, queue s)) < CONCURRENCY_LIMIT (fst (?r, queue s))
        \<and> nextPendingRefIndex (fst (?r, queue s)) < length (pendingIndices (fst (?r, queue s)))
        \<longrightarrow> inflight (fst (r', q')) \<noteq> [])"
    by (rule processNext_while_snap [OF w _ snapshot_qref [OF q0]]) (simp add: sc)
  have "inflight ?r \<noteq> [] \<or> (activeCount ?r < CONCURRENCY_LIMIT ?r
        \<and> nextPendingRefIndex ?r < length (pendingIndices ?r))"
    using False sc by (auto simp: run_finished_def snap_core_def)
  then have "inflight r' \<noteq> []" using l by auto
  moreover have "\<not> resolved r'" using processNext_while_keeps [OF w] unres by simp
  ultimately show ?thesis unfolding rk using l by (simp add: snapshot_run_def)
qed

text \<open>
  The run numbered \<open>k\<close> took its snapshot from \<open>q0\<close>, and the queue and
  \<^verbatim>\<open>queueRef.current\<close> still have every row of \<open>q0\<close> at its position.
\<close>

definition snap_inv :: "QueueItem list \<Rightarrow> nat \<Rightarrow> modal \<Rightarrow> bool" where
  "snap_inv q0 k s \<longleftrightarrow>
     k < length (runs s) \<and> snapshot_run q0 (runs s ! k)
     \<and> files_kept q0 (queue s) \<and> files_kept q0 (queueRef s)"

lemma upload_settled_snap:
  assumes inv: "snap_inv q0 k s" and q0: "idle_files q0"
  shows "snapshot_run q0 (runs (upload_settled k j resp s) ! k)"
proof (cases "j < length (inflight (runs s ! k))")
  case False
  have "upload_settled k j resp s = s"
    unfolding upload_settled_def using False by simp
  then show ?thesis using inv by (simp add: snap_inv_def)
next
  case j: True
  have k: "k < length (runs s)" using inv by (simp add: snap_inv_def)
  let ?r = "runs s ! k"
  let ?r' = "?r\<lparr>inflight := take j (inflight ?r) @ drop (Suc j) (inflight ?r),
                  activeCount := activeCount ?r - 1,
                  completedCount := completedCount ?r + 1\<rparr>"
  let ?s1 = "s\<lparr>queue := fst (processItem_settle (fst (inflight ?r ! j)) resp (queue s)),
          polls := polls s
            @ (case snd (processItem_settle (fst (inflight ?r ! j)) resp (queue s)) of
                 None \<Rightarrow> [] | Some p \<Rightarrow> [p]),
          stats := (completedCount ?r + 1, snd (stats s)),
          runs := (runs s)[k := ?r']\<rparr>"
  have eq: "upload_settled k j resp s = processNext k ?s1"
    by (rule upload_settled_unfold [OF k j])
  have sr: "snapshot_run q0 ?r" using inv by (simp add: snap_inv_def)
  then have unres: "\<not> resolved ?r" using j by (auto simp: snapshot_run_def)
  have sc': "snap_core q0 ?r'"
    using sr j by (auto simp: snapshot_run_def snap_core_def)
  show ?thesis unfolding eq
  proof (rule processNext_snap)
    show "k < length (runs ?s1)" using k by simp
    show "snap_core q0 (runs ?s1 ! k)" using k sc' by simp
    show "\<not> resolved (runs ?s1 ! k)" using k unres by simp
    show "idle_files q0" by (rule q0)
    show "files_kept q0 (queueRef ?s1)" using inv by (simp add: snap_inv_def)
  qed
qed

lemma handle_snap_inv:
  assumes inv: "snap_inv q0 k s" and q0: "idle_files q0" and e: "keeps_rows e"
  shows "snap_inv q0 k (handle e s)"
proof -
  have k: "k < length (runs s)" using inv by (simp add: snap_inv_def)
  have a: "files_kept q0 (queue (handle e s))"
    using inv handle_files_kept [OF e, of s] files_kept_trans by (auto simp: snap_inv_def)
  have b: "files_kept q0 (queueRef (handle e s))"
    using inv by (simp add: handle_queueRef snap_inv_def)
  have c: "k < length (runs (handle e s)) \<and> snapshot_run q0 (runs (handle e s) ! k)"
  proof (cases "\<exists>j resp. e = UploadSettled k j resp")
    case True
    then obtain j resp where "e = UploadSettled k j resp" by blast
    then show ?thesis
      using upload_settled_snap [OF inv q0, of j resp] k by (simp add: upload_settled_frame)
  next
    case False
    then have "k < length (runs (handle e s)) \<and> runs (handle e s) ! k = runs s ! k"
      by (intro handle_other_run [OF k]) blast
    then show ?thesis using inv by (simp add: snap_inv_def)
  qed
  from a b c show ?thesis by (simp add: snap_inv_def)
qed

lemma run_events_snap_inv:
  assumes "snap_inv q0 k s" and "idle_files q0" and "\<forall>e\<in>set es. keeps_rows e"
  shows "snap_inv q0 k (run_events es s)"
  using assms unfolding run_events_def
proof (induction es arbitrary: s)
  case Nil
  then show ?case by simp
next
  case (Cons e es)
  have "snap_inv q0 k (handle e s)"
    by (rule handle_snap_inv) (use Cons.prems in simp_all)
  from Cons.IH [OF this] Cons.prems show ?case by simp
qed

text \<open>A call of \<^verbatim>\<open>runBatchLogic\<close> that passes the guard and finds \<^verbatim>\<open>idle\<close> rows starts such a run.\<close>

lemma runBatchLogic_snap_inv:
  assumes guard: "\<not> isGlobalLoadingRef s" and some: "idle_indices (queueRef s) \<noteq> []"
    and q0: "idle_files (queueRef s)" and kept: "files_kept (queueRef s) (queue s)"
  shows "snap_inv (queueRef s) (length (runs s)) (runBatchLogic em s)"
proof -
  let ?r0 = "\<lparr>run_engineMode = em, pendingIndices = idle_indices (queueRef s),
               CONCURRENCY_LIMIT = effective_limit (concurrency_limit s),
               activeCount = 0, nextPendingRefIndex = 0, completedCount = 0,
               dispatched = [], inflight = [], resolved = False\<rparr>"
  let ?s2 = "s\<lparr>isGlobalLoading := True,
                stats := (0, length (idle_indices (queueRef s))),
                runs := runs s @ [?r0]\<rparr>"
  have eq: "runBatchLogic em s = processNext (length (runs s)) ?s2"
    using guard some by (simp add: runBatchLogic_def Let_def)
  have sc: "snap_core (queueRef s) ?r0"
    using effective_limit_pos [of "concurrency_limit s"] by (simp add: snap_core_def)
  have "snapshot_run (queueRef s) (runs (processNext (length (runs s)) ?s2) ! length (runs s))"
  proof (rule processNext_snap)
    show "length (runs s) < length (runs ?s2)" by simp
    show "snap_core (queueRef s) (runs ?s2 ! length (runs s))" using sc by simp
    show "\<not> resolved (runs ?s2 ! length (runs s))" by simp
    show "idle_files (queueRef s)" by (rule q0)
    show "files_kept (queueRef s) (queueRef ?s2)" by (simp add: files_kept_refl)
  qed
  moreover have "files_kept (queueRef s) (queue (processNext (length (runs s)) ?s2))"
    using kept processNext_files_kept [of ?s2 "length (runs s)"] files_kept_trans by auto
  ultimately show ?thesis
    unfolding eq by (simp add: snap_inv_def processNext_frame files_kept_refl)
qed

lemma snapshot_run_counts:
  assumes "snapshot_run q0 r"
  shows "resolved r \<longleftrightarrow> completedCount r = length (pendingIndices r)"
    and "map fst (dispatched r) = take (nextPendingRefIndex r) (pendingIndices r)"
    and "resolved r \<longrightarrow> map fst (dispatched r) = pendingIndices r"
proof -
  show "resolved r \<longleftrightarrow> completedCount r = length (pendingIndices r)"
  proof (cases "resolved r")
    case True
    then show ?thesis using assms by (auto simp: snapshot_run_def snap_core_def)
  next
    case False
    then have "inflight r \<noteq> []" using assms by (simp add: snapshot_run_def)
    then have "0 < length (inflight r)" by simp
    moreover have "completedCount r + length (inflight r) = nextPendingRefIndex r"
      and "nextPendingRefIndex r \<le> length (pendingIndices r)"
      using assms unfolding snapshot_run_def snap_core_def by blast+
    ultimately have "completedCount r < length (pendingIndices r)" by linarith
    then show ?thesis using False by simp
  qed
  show d: "map fst (dispatched r) = take (nextPendingRefIndex r) (pendingIndices r)"
    using assms by (simp add: snapshot_run_def snap_core_def comp_def)
  show "resolved r \<longrightarrow> map fst (dispatched r) = pendingIndices r"
    using assms d by (auto simp: snapshot_run_def)
qed

lemma upload_settled_counts:
  assumes "k < length (runs s)" and "j < length (inflight (runs s ! k))"
  shows "completedCount (runs (upload_settled k j resp s) ! k) = completedCount (runs s ! k) + 1"
proof -
  let ?r = "runs s ! k"
  let ?r' = "?r\<lparr>inflight := take j (inflight ?r) @ drop (Suc j) (inflight ?r),
                  activeCount := activeCount ?r - 1,
                  completedCount := completedCount ?r + 1\<rparr>"
  let ?s1 = "s\<lparr>queue := fst (processItem_settle (fst (inflight ?r ! j)) resp (queue s)),
          polls := polls s
            @ (case snd (processItem_settle (fst (inflight ?r ! j)) resp (queue s)) of
                 None \<Rightarrow> [] | Some p \<Rightarrow> [p]),
          stats := (completedCount ?r + 1, snd (stats s)),
          runs := (runs s)[k := ?r']\<rparr>"
  have eq: "upload_settled k j resp s = processNext k ?s1"
    by (rule upload_settled_unfold [OF assms])
  obtain r' q' where w: "processNext_while (queueRef ?s1) (textRef ?s1) (?r', queue ?s1) = (r', q')"
    by (cases "processNext_while (queueRef ?s1) (textRef ?s1) (?r', queue ?s1)")
  have "completedCount r' = completedCount ?r'" using processNext_while_keeps [OF w] by simp
  then show ?thesis
    unfolding eq using assms(1) w by (simp add: processNext_fields)
qed

text \<open>
  Once as many of its uploads have ended as its snapshot has entries left, the run is
  resolved and has dispatched the whole snapshot.
\<close>

lemma snap_drains:
  assumes "snap_inv q0 k s" and "idle_files q0"
    and "length resps = length (idle_indices q0) - completedCount (runs s ! k)"
  shows "snap_inv q0 k (run_events (map (UploadSettled k 0) resps) s)
    \<and> resolved (runs (run_events (map (UploadSettled k 0) resps) s) ! k)"
  using assms
proof (induction resps arbitrary: s)
  case Nil
  have sr: "snapshot_run q0 (runs s ! k)" using Nil.prems(1) by (simp add: snap_inv_def)
  then have p: "pendingIndices (runs s ! k) = idle_indices q0"
    and c: "completedCount (runs s ! k) + length (inflight (runs s ! k))
        = nextPendingRefIndex (runs s ! k)"
    and l: "nextPendingRefIndex (runs s ! k) \<le> length (pendingIndices (runs s ! k))"
    unfolding snapshot_run_def snap_core_def by blast+
  have "completedCount (runs s ! k) = length (pendingIndices (runs s ! k))"
    using Nil.prems(3) p c l by simp
  then have "resolved (runs s ! k)" using snapshot_run_counts(1) [OF sr] by simp
  then show ?case using Nil.prems(1) by (simp add: run_events_def)
next
  case (Cons resp resps)
  have k: "k < length (runs s)" using Cons.prems(1) by (simp add: snap_inv_def)
  have sr: "snapshot_run q0 (runs s ! k)" using Cons.prems(1) by (simp add: snap_inv_def)
  then have p: "pendingIndices (runs s ! k) = idle_indices q0"
    unfolding snapshot_run_def snap_core_def by blast
  have "completedCount (runs s ! k) \<noteq> length (pendingIndices (runs s ! k))"
    using Cons.prems(3) p by simp
  then have "\<not> resolved (runs s ! k)" using snapshot_run_counts(1) [OF sr] by simp
  then have j: "0 < length (inflight (runs s ! k))" using sr by (simp add: snapshot_run_def)
  let ?s' = "handle (UploadSettled k 0 resp) s"
  have inv': "snap_inv q0 k ?s'"
    by (rule handle_snap_inv [OF Cons.prems(1,2)]) simp
  have "completedCount (runs ?s' ! k) = completedCount (runs s ! k) + 1"
    using upload_settled_counts [OF k j] by simp
  then have "length resps = length (idle_indices q0) - completedCount (runs ?s' ! k)"
    using Cons.prems(3) by simp
  from Cons.IH [OF inv' Cons.prems(2) this] show ?case by (simp add: run_events_def)
qed

text \<open>
  Claim C2. Whatever name is proposed and whatever the queue and the known server names
  hold, the name that \<^verbatim>\<open>getUniqueFileName\<close> returns is not the full name of any queue
  item, and its stem (the part before its last dot) is not one of the known server
  names. The queue is compared by full name and the server names by stem only: a queue
  row named \<^verbatim>\<open>essay\<close> does not block \<^verbatim>\<open>essay.mp3\<close>, and a server name \<^verbatim>\<open>essay.mp3\<close>
  does not block it either, since its stem is \<^verbatim>\<open>essay\<close>.
\<close>

theorem getUniqueFileName_not_in_queue_nor_history:
  "getUniqueFileName knownNames fileName currentQueue
       \<notin> set (map (\<lambda>item. file_name (item_file item)) currentQueue)
   \<and> stem_of (getUniqueFileName knownNames fileName currentQueue) \<notin> set knownNames
   \<and> getUniqueFileName [] ''essay.mp3''
        [\<lparr>item_file = NameOnly ''essay'', status = Done, jobId = Some ''j1'',
          resultUrl = Some ''u'', error = None\<rparr>] = ''essay.mp3''
   \<and> getUniqueFileName [''essay.mp3''] ''essay.mp3'' [] = ''essay.mp3''"
proof (intro conjI)
  let ?r = "getUniqueFileName knownNames fileName currentQueue"
  have free: "\<not> isDuplicate currentQueue knownNames ?r (stem_of ?r)"
    using getUniqueFileName_cases [of currentQueue knownNames fileName]
    by (auto simp: stem_of_suffixed)
  show "?r \<notin> set (map (\<lambda>item. file_name (item_file item)) currentQueue)"
    using free by (simp add: isDuplicate_iff)
  show "stem_of ?r \<notin> set knownNames"
    using free by (simp add: isDuplicate_iff)
  show "getUniqueFileName [] ''essay.mp3''
        [\<lparr>item_file = NameOnly ''essay'', status = Done, jobId = Some ''j1'',
          resultUrl = Some ''u'', error = None\<rparr>] = ''essay.mp3''"
    by code_simp
  show "getUniqueFileName [''essay.mp3''] ''essay.mp3'' [] = ''essay.mp3''"
    by code_simp
qed

text \<open>
  Claim C3, as amended. A proposed name that does not collide is returned unchanged.
  One that collides is returned as the original stem, an underscore, the decimal counter
  padded with zeros to at least two characters, and the original extension, for the
  least counter from 1 on whose name is free; the counter has exactly two characters
  while it is below 100. Two files named \<^verbatim>\<open>essay.mp3\<close> added together to an empty queue
  with no server names become \<^verbatim>\<open>essay.mp3\<close> and \<^verbatim>\<open>essay_01.mp3\<close>, and \<^verbatim>\<open>essay.mp3\<close>
  added when the server names hold \<^verbatim>\<open>essay\<close> becomes \<^verbatim>\<open>essay_01.mp3\<close>.
\<close>

theorem getUniqueFileName_counter_suffix:
  "(\<not> isDuplicate currentQueue knownNames fileName (stem_of fileName) \<longrightarrow>
      getUniqueFileName knownNames fileName currentQueue = fileName)
   \<and> (isDuplicate currentQueue knownNames fileName (stem_of fileName) \<longrightarrow>
      (\<exists>c\<ge>1. getUniqueFileName knownNames fileName currentQueue
            = stem_of fileName @ ''_'' @ padStart2 (String_of c) @ ext_of fileName
        \<and> 2 \<le> length (padStart2 (String_of c))
        \<and> (c < 100 \<longrightarrow> length (padStart2 (String_of c)) = 2)
        \<and> \<not> isDuplicate currentQueue knownNames
              (suffixed_base (stem_of fileName) c @ ext_of fileName)
              (suffixed_base (stem_of fileName) c)
        \<and> (\<forall>k. 1 \<le> k \<and> k < c \<longrightarrow>
              isDuplicate currentQueue knownNames
                (suffixed_base (stem_of fileName) k @ ext_of fileName)
                (suffixed_base (stem_of fileName) k))))
   \<and> map (\<lambda>item. file_name (item_file item))
        (addFiles_queue [] [] [(''essay.mp3'', ''a''), (''essay.mp3'', ''b'')])
      = [''essay.mp3'', ''essay_01.mp3'']
   \<and> getUniqueFileName [''essay''] ''essay.mp3'' [] = ''essay_01.mp3''"
proof (intro conjI)
  show "\<not> isDuplicate currentQueue knownNames fileName (stem_of fileName) \<longrightarrow>
      getUniqueFileName knownNames fileName currentQueue = fileName"
    using getUniqueFileName_cases [of currentQueue knownNames fileName] by blast
  show "isDuplicate currentQueue knownNames fileName (stem_of fileName) \<longrightarrow>
      (\<exists>c\<ge>1. getUniqueFileName knownNames fileName currentQueue
            = stem_of fileName @ ''_'' @ padStart2 (String_of c) @ ext_of fileName
        \<and> 2 \<le> length (padStart2 (String_of c))
        \<and> (c < 100 \<longrightarrow> length (padStart2 (String_of c)) = 2)
        \<and> \<not> isDuplicate currentQueue knownNames
              (suffixed_base (stem_of fileName) c @ ext_of fileName)
              (suffixed_base (stem_of fileName) c)
        \<and> (\<forall>k. 1 \<le> k \<and> k < c \<longrightarrow>
              isDuplicate currentQueue knownNames
                (suffixed_base (stem_of fileName) k @ ext_of fileName)
                (suffixed_base (stem_of fileName) k)))"
  proof
    assume "isDuplicate currentQueue knownNames fileName (stem_of fileName)"
    then obtain c where c: "1 \<le> c"
      "getUniqueFileName knownNames fileName currentQueue
         = suffixed_base (stem_of fileName) c @ ext_of fileName"
      "\<not> isDuplicate currentQueue knownNames
              (suffixed_base (stem_of fileName) c @ ext_of fileName)
              (suffixed_base (stem_of fileName) c)"
      "\<forall>k. 1 \<le> k \<and> k < c \<longrightarrow>
              isDuplicate currentQueue knownNames
                (suffixed_base (stem_of fileName) k @ ext_of fileName)
                (suffixed_base (stem_of fileName) k)"
      using getUniqueFileName_cases [of currentQueue knownNames fileName] by blast
    from c(2) have "getUniqueFileName knownNames fileName currentQueue
            = stem_of fileName @ ''_'' @ padStart2 (String_of c) @ ext_of fileName"
      by (simp add: suffixed_base_def)
    with c(1,3,4) length_padStart2_ge [of "String_of c"] length_padStart2_small [of c]
    show "\<exists>c\<ge>1. getUniqueFileName knownNames fileName currentQueue
            = stem_of fileName @ ''_'' @ padStart2 (String_of c) @ ext_of fileName
        \<and> 2 \<le> length (padStart2 (String_of c))
        \<and> (c < 100 \<longrightarrow> length (padStart2 (String_of c)) = 2)
        \<and> \<not> isDuplicate currentQueue knownNames
              (suffixed_base (stem_of fileName) c @ ext_of fileName)
              (suffixed_base (stem_of fileName) c)
        \<and> (\<forall>k. 1 \<le> k \<and> k < c \<longrightarrow>
              isDuplicate currentQueue knownNames
                (suffixed_base (stem_of fileName) k @ ext_of fileName)
                (suffixed_base (stem_of fileName) k))"
      by (intro exI [of _ c]) blast
  qed
  show "map (\<lambda>item. file_name (item_file item))
        (addFiles_queue [] [] [(''essay.mp3'', ''a''), (''essay.mp3'', ''b'')])
      = [''essay.mp3'', ''essay_01.mp3'']"
    by code_simp
  show "getUniqueFileName [''essay''] ''essay.mp3'' [] = ''essay_01.mp3''"
    by code_simp
qed

theorem getUniqueFileName_counter_suffix_witness:
  "isDuplicate [] [''essay'', ''essay_01''] ''essay.mp3'' (stem_of ''essay.mp3'')
   \<and> getUniqueFileName [''essay'', ''essay_01''] ''essay.mp3'' [] = ''essay_02.mp3''
   \<and> \<not> isDuplicate [] [] ''essay.mp3'' (stem_of ''essay.mp3'')
   \<and> getUniqueFileName [] ''essay.mp3'' [] = ''essay.mp3''"
proof -
  have d: "isDuplicate [] [''essay'', ''essay_01''] ''essay.mp3'' (stem_of ''essay.mp3'')"
    by code_simp
  have n: "\<not> isDuplicate [] [] ''essay.mp3'' (stem_of ''essay.mp3'')"
    by code_simp
  have r: "getUniqueFileName [''essay'', ''essay_01''] ''essay.mp3'' [] = ''essay_02.mp3''"
    by code_simp
  from getUniqueFileName_counter_suffix [of "[]" "[]" "''essay.mp3''"] n
  have "getUniqueFileName [] ''essay.mp3'' [] = ''essay.mp3''" by blast
  moreover from getUniqueFileName_counter_suffix [of "[]" "[''essay'', ''essay_01'']" "''essay.mp3''"] d
  have "\<exists>c\<ge>1. getUniqueFileName [''essay'', ''essay_01''] ''essay.mp3'' []
            = stem_of ''essay.mp3'' @ ''_'' @ padStart2 (String_of c) @ ext_of ''essay.mp3''"
    by blast
  ultimately show ?thesis using d n r by blast
qed

text \<open>
  The counter is not always two digits: when \<^verbatim>\<open>essay\<close> and \<^verbatim>\<open>essay_01\<close> to
  \<^verbatim>\<open>essay_99\<close> are all known server names, \<^verbatim>\<open>essay.mp3\<close> becomes \<^verbatim>\<open>essay_100.mp3\<close>.
\<close>

theorem getUniqueFileName_three_digit_counter:
  "getUniqueFileName (''essay'' # map (suffixed_base ''essay'') [1..<100]) ''essay.mp3'' []
     = ''essay_100.mp3''"
proof -
  let ?H = "''essay'' # map (suffixed_base ''essay'') [1..<100]"
  have st: "stem_of ''essay.mp3'' = ''essay''" and ex: "ext_of ''essay.mp3'' = ''.mp3''"
    by code_simp+
  have dup: "isDuplicate [] ?H (suffixed_base ''essay'' k @ ''.mp3'') (suffixed_base ''essay'' k)
      \<longleftrightarrow> 1 \<le> k \<and> k < 100" for k
  proof -
    have "suffixed_base ''essay'' k \<noteq> ''essay''" by (simp add: suffixed_base_def)
    moreover have "suffixed_base ''essay'' k \<in> suffixed_base ''essay'' ` {1..<100} \<longleftrightarrow> k \<in> {1..<100}"
      by (rule inj_image_mem_iff [OF inj_suffixed_base])
    ultimately show ?thesis by (auto simp: isDuplicate_iff)
  qed
  have "isDuplicate [] ?H ''essay.mp3'' (stem_of ''essay.mp3'')"
    by (simp add: isDuplicate_iff st)
  then obtain c where c: "1 \<le> c"
      "getUniqueFileName ?H ''essay.mp3'' [] = suffixed_base ''essay'' c @ ''.mp3''"
      "\<not> isDuplicate [] ?H (suffixed_base ''essay'' c @ ''.mp3'') (suffixed_base ''essay'' c)"
      "\<forall>k. 1 \<le> k \<and> k < c \<longrightarrow>
          isDuplicate [] ?H (suffixed_base ''essay'' k @ ''.mp3'') (suffixed_base ''essay'' k)"
    using getUniqueFileName_cases [of "[]" ?H "''essay.mp3''"] unfolding st ex by blast
  from c(3) have "\<not> (1 \<le> c \<and> c < 100)" unfolding dup .
  with c(1) have "100 \<le> c" by simp
  moreover have "\<not> 100 < c"
  proof
    assume "100 < c"
    with c(4) have "isDuplicate [] ?H (suffixed_base ''essay'' 100 @ ''.mp3'') (suffixed_base ''essay'' 100)"
      by simp
    then have "1 \<le> (100::nat) \<and> (100::nat) < 100" unfolding dup .
    then show False by simp
  qed
  ultimately have "c = 100" by simp
  moreover have "suffixed_base ''essay'' 100 @ ''.mp3'' = ''essay_100.mp3''" by code_simp
  ultimately show ?thesis using c(2) by simp
qed

section \<open>Claim C10: the text field of the upload request\<close>

text \<open>
  Claim C10 says that in the engine mode \<^verbatim>\<open>auto\<close> the text field of the upload request
  is empty, so that the stored reference text makes no difference. \<^verbatim>\<open>processItem\<close> sends
  the text when its own \<^verbatim>\<open>engineMode\<close> is \<^verbatim>\<open>pro\<close> (\<open>reachable_requests_ok\<close> above: a request
  whose mode field is \<^verbatim>\<open>auto\<close> has an empty text). The text is read through
  \<^verbatim>\<open>textRef.current\<close>, but \<^verbatim>\<open>engineMode\<close> is the variable of the render that made the
  closure, and the auto-run effect keeps the callback of the render that set the timer:
  its dependencies do not name \<^verbatim>\<open>engineMode\<close>. A file is added in the mode \<^verbatim>\<open>pro\<close> and
  rendered, the mode is changed to \<^verbatim>\<open>auto\<close> and rendered, then the timer fires: the engine
  mode is \<^verbatim>\<open>auto\<close>, in the state and in the last render, and the request carries the stored
  text and the mode \<^verbatim>\<open>pro\<close>. With another stored text the request is another one.
\<close>

theorem stale_engineMode_sends_text_in_auto:
  "engineMode (run_events
      [AddFiles [(''a.mp3'', ''A'')], Render, SetEngineMode Auto, Render, TimerFired]
      (mounted ''ref'')) = Auto
   \<and> renderedMode (run_events
      [AddFiles [(''a.mp3'', ''A'')], Render, SetEngineMode Auto, Render, TimerFired]
      (mounted ''ref'')) = Auto
   \<and> map inflight (runs (run_events
      [AddFiles [(''a.mp3'', ''A'')], Render, SetEngineMode Auto, Render, TimerFired]
      (mounted ''ref'')))
       = [[(0, \<lparr>fd_file = File ''a.mp3'' ''A'', fd_text = ''ref'', fd_mode = Pro\<rparr>)]]
   \<and> map inflight (runs (run_events
      [AddFiles [(''a.mp3'', ''A'')], Render, SetEngineMode Auto, Render, TimerFired]
      (mounted ''other'')))
       = [[(0, \<lparr>fd_file = File ''a.mp3'' ''A'', fd_text = ''other'', fd_mode = Pro\<rparr>)]]
   \<and> map inflight (runs (run_events
      [AddFiles [(''a.mp3'', ''A'')], Render, SetEngineMode Auto, Render, RunBatch]
      (mounted ''ref'')))
       = [[(0, \<lparr>fd_file = File ''a.mp3'' ''A'', fd_text = [], fd_mode = Auto\<rparr>)]]"
  by code_simp

section \<open>Claim C1: uploads in flight and the concurrency limit\<close>

text \<open>
  Claim C1 says that at no instant more than \<open>N\<close> tasks are in their upload phase, \<open>N\<close> being
  the configured limit. Each run counts its own uploads only (\<open>reachable_run_ok\<close> above:
  within one run the uploads in flight never exceed the limit of that run), and the
  guard that should keep a second run from starting reads \<^verbatim>\<open>isGlobalLoadingRef.current\<close>,
  which is set by the effect of the next render, not by \<^verbatim>\<open>runBatchLogic\<close>. With the limit
  stored as \<^verbatim>\<open>"1"\<close> (the code unit \<^verbatim>\<open>0x31\<close>): two files are added and rendered, the timer
  callback starts a run, which uploads \<^verbatim>\<open>a.mp3\<close>, and before the next render \<^verbatim>\<open>runBatch\<close>
  starts a second run, which uploads \<^verbatim>\<open>a.mp3\<close> again. Both runs have the limit 1 and
  nothing has ended yet: two uploads are in flight. When the upload of the second run
  ends, that run goes on to \<^verbatim>\<open>b.mp3\<close> while the first run is still uploading \<^verbatim>\<open>a.mp3\<close>: two
  different tasks are in their upload phase at the limit 1.
\<close>

theorem two_runs_exceed_limit_one:
  "map CONCURRENCY_LIMIT (runs (run_events
      [SetConcurrency [0x31],
       AddFiles [(''a.mp3'', ''A''), (''b.mp3'', ''B'')], Render, TimerFired, RunBatch]
      (mounted ''ref''))) = [1, 1]
   \<and> map (map fst) (map inflight (runs (run_events
      [SetConcurrency [0x31],
       AddFiles [(''a.mp3'', ''A''), (''b.mp3'', ''B'')], Render, TimerFired, RunBatch]
      (mounted ''ref'')))) = [[0], [0]]
   \<and> map CONCURRENCY_LIMIT (runs (run_events
      [SetConcurrency [0x31],
       AddFiles [(''a.mp3'', ''A''), (''b.mp3'', ''B'')], Render, TimerFired, RunBatch,
       UploadSettled 1 0 (UploadOk ''j1'')]
      (mounted ''ref''))) = [1, 1]
   \<and> map (map fst) (map inflight (runs (run_events
      [SetConcurrency [0x31],
       AddFiles [(''a.mp3'', ''A''), (''b.mp3'', ''B'')], Render, TimerFired, RunBatch,
       UploadSettled 1 0 (UploadOk ''j1'')]
      (mounted ''ref'')))) = [[0], [1]]
   \<and> map file_name (map item_file (queue (run_events
      [SetConcurrency [0x31],
       AddFiles [(''a.mp3'', ''A''), (''b.mp3'', ''B'')], Render, TimerFired, RunBatch,
       UploadSettled 1 0 (UploadOk ''j1'')]
      (mounted ''ref'')))) = [''a.mp3'', ''b.mp3'']"
  by code_simp

section \<open>Claim C6: calling the Scheduler while a run is active\<close>

text \<open>
  Claim C6 says that calling \<^verbatim>\<open>runBatchLogic\<close> while a run is active does nothing. The code
  means to do so: it returns at once when \<^verbatim>\<open>isGlobalLoadingRef.current\<close> is set. But the run
  that starts only calls \<^verbatim>\<open>setIsGlobalLoading(true)\<close>; the ref is set by the effect of the
  render that follows. A file is added and rendered and the timer callback starts a run:
  that run is not resolved and has the upload of \<^verbatim>\<open>a.mp3\<close> in flight, \<^verbatim>\<open>isGlobalLoading\<close> is
  set, the ref is not. A call of \<^verbatim>\<open>runBatch\<close> before the next render starts a second run,
  which sends \<^verbatim>\<open>a.mp3\<close> a second time. The same call after the render does nothing.
\<close>

theorem runBatch_before_render_starts_second_run:
  "map resolved (runs (run_events
      [AddFiles [(''a.mp3'', ''A'')], Render, TimerFired] (mounted ''ref''))) = [False]
   \<and> map dispatched (runs (run_events
      [AddFiles [(''a.mp3'', ''A'')], Render, TimerFired] (mounted ''ref'')))
       = [[(0, File ''a.mp3'' ''A'')]]
   \<and> isGlobalLoading (run_events
      [AddFiles [(''a.mp3'', ''A'')], Render, TimerFired] (mounted ''ref''))
   \<and> \<not> isGlobalLoadingRef (run_events
      [AddFiles [(''a.mp3'', ''A'')], Render, TimerFired] (mounted ''ref''))
   \<and> map resolved (runs (run_events
      [AddFiles [(''a.mp3'', ''A'')], Render, TimerFired, RunBatch] (mounted ''ref'')))
       = [False, False]
   \<and> map dispatched (runs (run_events
      [AddFiles [(''a.mp3'', ''A'')], Render, TimerFired, RunBatch] (mounted ''ref'')))
       = [[(0, File ''a.mp3'' ''A'')], [(0, File ''a.mp3'' ''A'')]]
   \<and> map (map fst) (map inflight (runs (run_events
      [AddFiles [(''a.mp3'', ''A'')], Render, TimerFired, RunBatch] (mounted ''ref''))))
       = [[0], [0]]
   \<and> run_events [AddFiles [(''a.mp3'', ''A'')], Render, TimerFired, Render, RunBatch]
        (mounted ''ref'')
       = run_events [AddFiles [(''a.mp3'', ''A'')], Render, TimerFired, Render]
           (mounted ''ref'')"
  by code_simp

section \<open>Claim C9: a timer callback that finds a run active\<close>



section \<open>Claim C5: what a run dispatches\<close>

text \<open>
  Claim C5, as amended. Let the component be in any state it can reach, with the last
  committed render up to date as far as the snapshot goes: every row of
  \<^verbatim>\<open>queueRef.current\<close> is at its position in the queue, and the \<^verbatim>\<open>idle\<close> positions of
  \<^verbatim>\<open>queueRef.current\<close> are those of the queue. Let \<^verbatim>\<open>runBatchLogic\<close> be called, by the button or
  by the timer, pass its guard and find \<^verbatim>\<open>idle\<close> rows, and let any events follow that
  leave every row at its position. Then the run that this call has started has for its
  snapshot the positions that were \<^verbatim>\<open>idle\<close> at the call, in queue order, and never another;
  the calls of \<^verbatim>\<open>processItem\<close> it has made are those for the snapshot up to its cursor, in
  order, each with the file that the row had at the call; every call made has ended or
  is in flight; the run is resolved exactly when as many uploads have ended as the
  snapshot has entries, and it has then dispatched the whole snapshot; until then an
  upload of the run is in flight, and the end of any upload in flight counts as one
  more; so after as many ends of uploads as entries are left the run is resolved with
  the whole snapshot dispatched. Rows appended after the call are at positions past the
  queue of the call and are not dispatched by this run.
\<close>

theorem run_dispatches_tasks_idle_at_invocation:
  assumes s0: "s0 = run_events es0 (mounted t)"
    and guard: "\<not> isGlobalLoadingRef s0"
    and rendered: "files_kept (queueRef s0) (queue s0)"
      "idle_indices (queueRef s0) = idle_indices (queue s0)"
    and some: "idle_indices (queue s0) \<noteq> []"
    and e0: "e0 = RunBatch \<or> (e0 = TimerFired \<and> autoRunTimer s0 \<noteq> None)"
    and es: "\<forall>e\<in>set es. keeps_rows e"
    and s: "s = run_events es (handle e0 s0)" and k: "k = length (runs s0)"
  shows "k < length (runs s)
    \<and> pendingIndices (runs s ! k) = idle_indices (queue s0)
    \<and> dispatched (runs s ! k)
        = map (\<lambda>i. (i, item_file (queue s0 ! i)))
            (take (nextPendingRefIndex (runs s ! k)) (idle_indices (queue s0)))
    \<and> completedCount (runs s ! k) + length (inflight (runs s ! k))
        = nextPendingRefIndex (runs s ! k)
    \<and> (resolved (runs s ! k) \<longleftrightarrow> completedCount (runs s ! k) = length (idle_indices (queue s0)))
    \<and> (resolved (runs s ! k) \<longrightarrow> map fst (dispatched (runs s ! k)) = idle_indices (queue s0))
    \<and> (\<not> resolved (runs s ! k) \<longrightarrow> inflight (runs s ! k) \<noteq> [])
    \<and> (\<forall>j resp. j < length (inflight (runs s ! k)) \<longrightarrow>
          completedCount (runs (handle (UploadSettled k j resp) s) ! k)
            = completedCount (runs s ! k) + 1)
    \<and> (length resps = length (idle_indices (queue s0)) - completedCount (runs s ! k) \<longrightarrow>
          resolved (runs (run_events (map (UploadSettled k 0) resps) s) ! k)
          \<and> map fst (dispatched (runs (run_events (map (UploadSettled k 0) resps) s) ! k))
              = idle_indices (queue s0))
    \<and> (\<forall>i\<in>set (map fst (dispatched (runs s ! k))).
          i < length (queue s0) \<and> status (queue s0 ! i) = Idle)"
proof -
  let ?q0 = "queueRef s0"
  have idle: "idle_files ?q0" unfolding s0 using reachable_idle_files [of es0 t] by simp
  have start: "snap_inv ?q0 k (handle e0 s0)"
  proof -
    have a: "snap_inv ?q0 k (runBatchLogic em s0)" for em
      unfolding k
      by (rule runBatchLogic_snap_inv [OF guard _ idle rendered(1)])
         (use some rendered(2) in simp)
    from e0 show ?thesis
    proof
      assume "e0 = RunBatch"
      then show ?thesis using a by simp
    next
      assume t: "e0 = TimerFired \<and> autoRunTimer s0 \<noteq> None"
      then obtain em where em: "autoRunTimer s0 = Some em" by auto
      let ?s0' = "s0\<lparr>autoRunTimer := None\<rparr>"
      have "snap_inv (queueRef ?s0') (length (runs ?s0')) (runBatchLogic em ?s0')"
        by (rule runBatchLogic_snap_inv)
           (use guard some rendered idle in simp_all)
      then have "snap_inv ?q0 k ((runBatchLogic em ?s0')\<lparr>shouldAutoRun := False\<rparr>)"
        unfolding k by (simp add: snap_inv_def)
      then show ?thesis using t em by (simp add: timer_fired_def)
    qed
  qed
  have inv: "snap_inv ?q0 k s" unfolding s by (rule run_events_snap_inv [OF start idle es])
  let ?r = "runs s ! k"
  have kl: "k < length (runs s)" and sr: "snapshot_run ?q0 ?r"
    using inv by (simp_all add: snap_inv_def)
  have p: "pendingIndices ?r = idle_indices (queue s0)"
    using sr rendered(2) unfolding snapshot_run_def snap_core_def by simp
  have files: "item_file (?q0 ! i) = item_file (queue s0 ! i)" if "i \<in> set (idle_indices ?q0)" for i
    using that rendered(1) by (simp add: set_idle_indices files_kept_def)
  have d: "dispatched ?r = map (\<lambda>i. (i, item_file (queue s0 ! i)))
            (take (nextPendingRefIndex ?r) (idle_indices (queue s0)))"
  proof -
    have "dispatched ?r = map (\<lambda>i. (i, item_file (?q0 ! i)))
            (take (nextPendingRefIndex ?r) (idle_indices ?q0))"
      using sr unfolding snapshot_run_def snap_core_def by simp
    also have "\<dots> = map (\<lambda>i. (i, item_file (queue s0 ! i)))
            (take (nextPendingRefIndex ?r) (idle_indices ?q0))"
      by (rule map_cong [OF refl]) (use files in \<open>auto dest: in_set_takeD\<close>)
    finally show ?thesis using rendered(2) by simp
  qed
  have c: "completedCount ?r + length (inflight ?r) = nextPendingRefIndex ?r"
    using sr unfolding snapshot_run_def snap_core_def by blast
  have r1: "resolved ?r \<longleftrightarrow> completedCount ?r = length (idle_indices (queue s0))"
    using snapshot_run_counts(1) [OF sr] p by simp
  have r2: "resolved ?r \<longrightarrow> map fst (dispatched ?r) = idle_indices (queue s0)"
    using snapshot_run_counts(3) [OF sr] p by simp
  have r3: "\<not> resolved ?r \<longrightarrow> inflight ?r \<noteq> []"
    using sr by (simp add: snapshot_run_def)
  have r4: "\<forall>j resp. j < length (inflight ?r) \<longrightarrow>
          completedCount (runs (handle (UploadSettled k j resp) s) ! k) = completedCount ?r + 1"
    using upload_settled_counts [OF kl] by simp
  have r5: "length resps = length (idle_indices (queue s0)) - completedCount ?r \<longrightarrow>
          resolved (runs (run_events (map (UploadSettled k 0) resps) s) ! k)
          \<and> map fst (dispatched (runs (run_events (map (UploadSettled k 0) resps) s) ! k))
              = idle_indices (queue s0)"
  proof
    assume l: "length resps = length (idle_indices (queue s0)) - completedCount ?r"
    let ?s' = "run_events (map (UploadSettled k 0) resps) s"
    have "snap_inv ?q0 k ?s' \<and> resolved (runs ?s' ! k)"
      by (rule snap_drains [OF inv idle]) (use l rendered(2) in simp)
    then have sr': "snapshot_run ?q0 (runs ?s' ! k)" and res: "resolved (runs ?s' ! k)"
      by (simp_all add: snap_inv_def)
    have "pendingIndices (runs ?s' ! k) = idle_indices (queue s0)"
      using sr' rendered(2) unfolding snapshot_run_def snap_core_def by simp
    then show "resolved (runs ?s' ! k)
          \<and> map fst (dispatched (runs ?s' ! k)) = idle_indices (queue s0)"
      using snapshot_run_counts(3) [OF sr'] res by simp
  qed
  have r6: "\<forall>i\<in>set (map fst (dispatched ?r)).
          i < length (queue s0) \<and> status (queue s0 ! i) = Idle"
  proof
    fix i assume "i \<in> set (map fst (dispatched ?r))"
    then have "i \<in> set (take (nextPendingRefIndex ?r) (pendingIndices ?r))"
      using snapshot_run_counts(2) [OF sr] by simp
    then have "i \<in> set (idle_indices (queue s0))" using p by (auto dest: in_set_takeD)
    then show "i < length (queue s0) \<and> status (queue s0 ! i) = Idle"
      by (simp add: set_idle_indices)
  qed
  from kl p d c r1 r2 r3 r4 r5 r6 show ?thesis by (simp only: simp_thms)
qed

theorem run_dispatches_tasks_idle_at_invocation_witness:
  "\<not> isGlobalLoadingRef (run_events
      [SetConcurrency [0x31], AddFiles [(''a.mp3'', ''A''), (''b.mp3'', ''B'')], Render]
      (mounted ''ref''))
   \<and> idle_indices (queue (run_events
      [SetConcurrency [0x31], AddFiles [(''a.mp3'', ''A''), (''b.mp3'', ''B'')], Render]
      (mounted ''ref''))) = [0, 1]
   \<and> pendingIndices (runs (run_events
      [Render, AddFiles [(''c.mp3'', ''C'')], Render, UploadSettled 0 0 (UploadOk ''j1'')]
      (handle TimerFired (run_events
        [SetConcurrency [0x31], AddFiles [(''a.mp3'', ''A''), (''b.mp3'', ''B'')], Render]
        (mounted ''ref'')))) ! 0) = [0, 1]
   \<and> dispatched (runs (run_events
      [Render, AddFiles [(''c.mp3'', ''C'')], Render, UploadSettled 0 0 (UploadOk ''j1'')]
      (handle TimerFired (run_events
        [SetConcurrency [0x31], AddFiles [(''a.mp3'', ''A''), (''b.mp3'', ''B'')], Render]
        (mounted ''ref'')))) ! 0) = [(0, File ''a.mp3'' ''A''), (1, File ''b.mp3'' ''B'')]
   \<and> \<not> resolved (runs (run_events
      [Render, AddFiles [(''c.mp3'', ''C'')], Render, UploadSettled 0 0 (UploadOk ''j1'')]
      (handle TimerFired (run_events
        [SetConcurrency [0x31], AddFiles [(''a.mp3'', ''A''), (''b.mp3'', ''B'')], Render]
        (mounted ''ref'')))) ! 0)
   \<and> map file_name (map item_file (queue (run_events
      [Render, AddFiles [(''c.mp3'', ''C'')], Render, UploadSettled 0 0 (UploadOk ''j1'')]
      (handle TimerFired (run_events
        [SetConcurrency [0x31], AddFiles [(''a.mp3'', ''A''), (''b.mp3'', ''B'')], Render]
        (mounted ''ref'')))))) = [''a.mp3'', ''b.mp3'', ''c.mp3'']
   \<and> resolved (runs (run_events (map (UploadSettled 0 0) [UploadRejected None]) (run_events
      [Render, AddFiles [(''c.mp3'', ''C'')], Render, UploadSettled 0 0 (UploadOk ''j1'')]
      (handle TimerFired (run_events
        [SetConcurrency [0x31], AddFiles [(''a.mp3'', ''A''), (''b.mp3'', ''B'')], Render]
        (mounted ''ref''))))) ! 0)
   \<and> map fst (dispatched (runs (run_events (map (UploadSettled 0 0) [UploadRejected None])
      (run_events
        [Render, AddFiles [(''c.mp3'', ''C'')], Render, UploadSettled 0 0 (UploadOk ''j1'')]
        (handle TimerFired (run_events
          [SetConcurrency [0x31], AddFiles [(''a.mp3'', ''A''), (''b.mp3'', ''B'')], Render]
          (mounted ''ref''))))) ! 0)) = [0, 1]"
proof -
  let ?before = "[SetConcurrency [0x31], AddFiles [(''a.mp3'', ''A''), (''b.mp3'', ''B'')], Render]"
  let ?start = "run_events ?before (mounted ''ref'')"
  let ?after = "[Render, AddFiles [(''c.mp3'', ''C'')], Render, UploadSettled 0 0 (UploadOk ''j1'')]"
  let ?now = "run_events ?after (handle TimerFired ?start)"
  let ?resps = "[UploadRejected None]"
  have g: "\<not> isGlobalLoadingRef ?start" by code_simp
  have same: "queueRef ?start = queue ?start" by code_simp
  have i: "idle_indices (queue ?start) = [0, 1]" by code_simp
  have r1: "files_kept (queueRef ?start) (queue ?start)" by (simp only: same files_kept_refl)
  have r2: "idle_indices (queueRef ?start) = idle_indices (queue ?start)" by (simp only: same)
  have some: "idle_indices (queue ?start) \<noteq> []" by (simp only: i) simp
  have timer: "TimerFired = RunBatch \<or> (TimerFired = TimerFired \<and> autoRunTimer ?start \<noteq> None)"
    by code_simp
  have es: "\<forall>e\<in>set ?after. keeps_rows e" by simp
  have n: "length (runs ?start) = 0" by code_simp
  have c: "completedCount (runs ?now ! 0) = 1" by code_simp
  have nr: "\<not> resolved (runs ?now ! 0)" by code_simp
  have d: "dispatched (runs ?now ! 0) = [(0, File ''a.mp3'' ''A''), (1, File ''b.mp3'' ''B'')]"
    by code_simp
  have names: "map file_name (map item_file (queue ?now)) = [''a.mp3'', ''b.mp3'', ''c.mp3'']"
    by code_simp
  have l: "length ?resps = length (idle_indices (queue ?start)) - completedCount (runs ?now ! 0)"
    by (simp only: i c) simp
  note T = run_dispatches_tasks_idle_at_invocation
    [OF refl g r1 r2 some timer es refl n [symmetric], of ?resps]
  have p: "pendingIndices (runs ?now ! 0) = idle_indices (queue ?start)" using T by blast
  have dr: "resolved (runs (run_events (map (UploadSettled 0 0) ?resps) ?now) ! 0)
      \<and> map fst (dispatched (runs (run_events (map (UploadSettled 0 0) ?resps) ?now) ! 0))
          = idle_indices (queue ?start)"
    using T l by blast
  have p': "pendingIndices (runs ?now ! 0) = [0, 1]" by (simp only: p i)
  have dr1: "resolved (runs (run_events (map (UploadSettled 0 0) ?resps) ?now) ! 0)"
    using dr by blast
  have dr2: "map fst (dispatched (runs (run_events (map (UploadSettled 0 0) ?resps) ?now) ! 0))
      = [0, 1]" using dr i by (simp only:)
  from g i p' d nr names dr1 dr2 show ?thesis by (intro conjI)
qed

text \<open>
  Without these conditions the claim fails. With a limit of 1 and the rows \<^verbatim>\<open>a\<close> and \<^verbatim>\<open>b\<close>
  snapshotted, removing \<^verbatim>\<open>a\<close> while it uploads moves \<^verbatim>\<open>b\<close> to position 0: when the upload
  ends, \<^verbatim>\<open>b\<close> is marked \<^verbatim>\<open>queued\<close> with the job of \<^verbatim>\<open>a\<close>, position 1 is empty and is skipped,
  and \<^verbatim>\<open>b\<close>, which was \<^verbatim>\<open>idle\<close> at the call and is still in the queue, is never dispatched;
  the run is left unresolved with nothing in flight. Removing \<^verbatim>\<open>b\<close> instead and then
  adding \<^verbatim>\<open>c\<close> puts \<^verbatim>\<open>c\<close> at the snapshotted position 1, and the run dispatches \<^verbatim>\<open>c\<close>, which was
  appended after the call. And when the call comes before the render that shows the
  previous run (the timer callback has started a run, \<^verbatim>\<open>a\<close> is \<^verbatim>\<open>uploading\<close>, then \<^verbatim>\<open>runBatch\<close>
  is called), the second run takes its snapshot from \<^verbatim>\<open>queueRef.current\<close>, where \<^verbatim>\<open>a\<close> is
  still \<^verbatim>\<open>idle\<close>, and dispatches \<^verbatim>\<open>a\<close>, which was not \<^verbatim>\<open>idle\<close> at the call.
\<close>

theorem removal_or_stale_render_breaks_snapshot_dispatch:
  "pendingIndices (runs (run_events
      [SetConcurrency [0x31], AddFiles [(''a.mp3'', ''A''), (''b.mp3'', ''B'')], Render,
       TimerFired, Render, RemoveFile 0, Render, UploadSettled 0 0 (UploadOk ''j1'')]
      (mounted ''ref'')) ! 0) = [0, 1]
   \<and> dispatched (runs (run_events
      [SetConcurrency [0x31], AddFiles [(''a.mp3'', ''A''), (''b.mp3'', ''B'')], Render,
       TimerFired, Render, RemoveFile 0, Render, UploadSettled 0 0 (UploadOk ''j1'')]
      (mounted ''ref'')) ! 0) = [(0, File ''a.mp3'' ''A'')]
   \<and> nextPendingRefIndex (runs (run_events
      [SetConcurrency [0x31], AddFiles [(''a.mp3'', ''A''), (''b.mp3'', ''B'')], Render,
       TimerFired, Render, RemoveFile 0, Render, UploadSettled 0 0 (UploadOk ''j1'')]
      (mounted ''ref'')) ! 0) = 2
   \<and> inflight (runs (run_events
      [SetConcurrency [0x31], AddFiles [(''a.mp3'', ''A''), (''b.mp3'', ''B'')], Render,
       TimerFired, Render, RemoveFile 0, Render, UploadSettled 0 0 (UploadOk ''j1'')]
      (mounted ''ref'')) ! 0) = []
   \<and> \<not> resolved (runs (run_events
      [SetConcurrency [0x31], AddFiles [(''a.mp3'', ''A''), (''b.mp3'', ''B'')], Render,
       TimerFired, Render, RemoveFile 0, Render, UploadSettled 0 0 (UploadOk ''j1'')]
      (mounted ''ref'')) ! 0)
   \<and> map item_file (queue (run_events
      [SetConcurrency [0x31], AddFiles [(''a.mp3'', ''A''), (''b.mp3'', ''B'')], Render,
       TimerFired, Render, RemoveFile 0, Render, UploadSettled 0 0 (UploadOk ''j1'')]
      (mounted ''ref''))) = [File ''b.mp3'' ''B'']
   \<and> map status (queue (run_events
      [SetConcurrency [0x31], AddFiles [(''a.mp3'', ''A''), (''b.mp3'', ''B'')], Render,
       TimerFired, Render, RemoveFile 0, Render, UploadSettled 0 0 (UploadOk ''j1'')]
      (mounted ''ref''))) = [Queued]
   \<and> map jobId (queue (run_events
      [SetConcurrency [0x31], AddFiles [(''a.mp3'', ''A''), (''b.mp3'', ''B'')], Render,
       TimerFired, Render, RemoveFile 0, Render, UploadSettled 0 0 (UploadOk ''j1'')]
      (mounted ''ref''))) = [Some ''j1'']
   \<and> pendingIndices (runs (run_events
      [SetConcurrency [0x31], AddFiles [(''a.mp3'', ''A''), (''b.mp3'', ''B'')], Render,
       TimerFired, Render, RemoveFile 1, AddFiles [(''c.mp3'', ''C'')], Render,
       UploadSettled 0 0 (UploadOk ''j1'')]
      (mounted ''ref'')) ! 0) = [0, 1]
   \<and> dispatched (runs (run_events
      [SetConcurrency [0x31], AddFiles [(''a.mp3'', ''A''), (''b.mp3'', ''B'')], Render,
       TimerFired, Render, RemoveFile 1, AddFiles [(''c.mp3'', ''C'')], Render,
       UploadSettled 0 0 (UploadOk ''j1'')]
      (mounted ''ref'')) ! 0) = [(0, File ''a.mp3'' ''A''), (1, File ''c.mp3'' ''C'')]
   \<and> map status (queue (run_events
      [AddFiles [(''a.mp3'', ''A'')], Render, TimerFired] (mounted ''ref''))) = [Uploading]
   \<and> map status (queueRef (run_events
      [AddFiles [(''a.mp3'', ''A'')], Render, TimerFired] (mounted ''ref''))) = [Idle]
   \<and> pendingIndices (runs (run_events
      [AddFiles [(''a.mp3'', ''A'')], Render, TimerFired, RunBatch] (mounted ''ref'')) ! 1) = [0]
   \<and> dispatched (runs (run_events
      [AddFiles [(''a.mp3'', ''A'')], Render, TimerFired, RunBatch] (mounted ''ref'')) ! 1)
       = [(0, File ''a.mp3'' ''A'')]"
  by code_simp

end
